theory Spec2Isabelle
  imports Main "HOL-Library.AList" "HOL-Library.Sublist"
begin

section \<open>The XML tree the library works on\<close>

text \<open>
  The package \<^verbatim>\<open>docx_revisions\<close> edits the children of a paragraph element of a
  word-processing document. An element has a qualified tag, an ordered table of attributes, an
  optional text and a list of children. A qualified name is the pair of its namespace and its local
  name (lxml writes it \<^verbatim>\<open>{namespace}local\<close>). A Python \<^verbatim>\<open>str\<close> is a
  \<^typ>\<open>string\<close>, one \<^typ>\<open>char\<close> for each character, and a Python \<^verbatim>\<open>int\<close> is an
  \<^typ>\<open>int\<close>.
\<close>

type_synonym qname = "string \<times> string"

datatype element =
  Element (tag: qname) (attrib: "(qname \<times> string) list") (elem_text: "string option")
    (children: "element list")

text \<open>A paragraph is given by the children of \<^verbatim>\<open>paragraph._element\<close>, in document order.\<close>

type_synonym Paragraph = "element list"

definition WORD_NS :: string where
  "WORD_NS = ''http://schemas.openxmlformats.org/wordprocessingml/2006/main''"

definition XML_NS :: string where
  "XML_NS = ''http://www.w3.org/XML/1998/namespace''"

text \<open>\<open>qn_w l\<close> is \<^verbatim>\<open>qn("w:l")\<close>, the name \<open>l\<close> in the namespace of the prefix \<^verbatim>\<open>w\<close>.\<close>

definition qn_w :: "string \<Rightarrow> qname" where
  "qn_w l = (WORD_NS, l)"

text \<open>\<^verbatim>\<open>etree.QName(element.tag).localname\<close>: the local name, whatever the namespace.\<close>

definition localname :: "element \<Rightarrow> string" where
  "localname e = snd (tag e)"

text \<open>\<^verbatim>\<open>OxmlElement("w:l")\<close>: a fresh element without attributes, text or children.\<close>

definition OxmlElement :: "qname \<Rightarrow> element" where
  "OxmlElement q = Element q [] None []"

text \<open>\<^verbatim>\<open>e.set(k, v)\<close> overwrites the attribute in place or adds it after the others.\<close>

definition set_attr :: "element \<Rightarrow> qname \<Rightarrow> string \<Rightarrow> element" where
  "set_attr e k v = Element (tag e) (AList.update k v (attrib e)) (elem_text e) (children e)"

definition get_attr :: "element \<Rightarrow> qname \<Rightarrow> string option" where
  "get_attr e k = map_of (attrib e) k"

definition set_text :: "element \<Rightarrow> string \<Rightarrow> element" where
  "set_text e s = Element (tag e) (attrib e) (Some s) (children e)"

definition append_child :: "element \<Rightarrow> element \<Rightarrow> element" where
  "append_child e c = Element (tag e) (attrib e) (elem_text e) (children e @ [c])"

text \<open>\<^verbatim>\<open>element.iter()\<close>: the element and its descendants in document order.\<close>

fun iter_elems :: "element \<Rightarrow> element list" where
  "iter_elems (Element t a x cs) = Element t a x cs # concat (map iter_elems cs)"

definition iter_tag :: "element \<Rightarrow> qname \<Rightarrow> element list" where
  "iter_tag e q = filter (\<lambda>x. tag x = q) (iter_elems e)"

text \<open>
  The loop \<^verbatim>\<open>for attr in target.attrib: elem.set(attr, target.get(attr))\<close> of the two
  splitting functions.
\<close>

definition copy_attrib :: "element \<Rightarrow> element \<Rightarrow> element" where
  "copy_attrib original elem =
     fold (\<lambda>attr el. case get_attr original attr of Some v \<Rightarrow> set_attr el attr v | None \<Rightarrow> el)
       (map fst (attrib original)) elem"

section \<open>Python slices and substring search\<close>

text \<open>
  A slice bound \<open>k\<close> of a sequence of length \<open>n\<close> counts from the end when it is negative and is
  clamped to \<open>0..n\<close>; \<^const>\<open>take\<close> and \<^const>\<open>drop\<close> clamp at \<open>n\<close> themselves.
\<close>

definition slice_bound :: "'a list \<Rightarrow> int \<Rightarrow> nat" where
  "slice_bound xs k = (if k < 0 then nat (int (length xs) + k) else nat k)"

text \<open>\<^verbatim>\<open>xs[:k]\<close>, \<^verbatim>\<open>xs[k:]\<close> and \<^verbatim>\<open>xs[a:b]\<close>.\<close>

definition slice_to :: "'a list \<Rightarrow> int \<Rightarrow> 'a list" where
  "slice_to xs k = take (slice_bound xs k) xs"

definition slice_from :: "'a list \<Rightarrow> int \<Rightarrow> 'a list" where
  "slice_from xs k = drop (slice_bound xs k) xs"

definition slice :: "'a list \<Rightarrow> int \<Rightarrow> int \<Rightarrow> 'a list" where
  "slice xs a b = take (slice_bound xs b - slice_bound xs a) (drop (slice_bound xs a) xs)"

text \<open>\<^verbatim>\<open>s.find(sub)\<close>: the least index where \<open>sub\<close> starts in \<open>s\<close>, or \<open>-1\<close>.\<close>

fun str_find :: "string \<Rightarrow> string \<Rightarrow> int" where
  "str_find [] sub = (if sub = [] then 0 else - 1)"
| "str_find (c # s) sub =
     (if prefix sub (c # s) then 0
      else (let r = str_find s sub in if r = - 1 then - 1 else r + 1))"

section \<open>Reading a paragraph\<close>

fun iter_paragraph_content :: "Paragraph \<Rightarrow> (string \<times> element) list" where
  "iter_paragraph_content [] = []"
| "iter_paragraph_content (element # rest) =
     (let tg = localname element in
      if tg = ''r'' then (''run'', element) # iter_paragraph_content rest
      else if tg = ''ins'' then (''ins'', element) # iter_paragraph_content rest
      else if tg = ''del'' then (''del'', element) # iter_paragraph_content rest
      else iter_paragraph_content rest)"

text \<open>\<^verbatim>\<open>if t_elem.text: texts.append(t_elem.text)\<close>: neither \<^verbatim>\<open>None\<close> nor the empty string.\<close>

definition append_text :: "element \<Rightarrow> string list \<Rightarrow> string list" where
  "append_text t_elem texts =
     (case elem_text t_elem of None \<Rightarrow> texts | Some s \<Rightarrow> if s \<noteq> [] then texts @ [s] else texts)"

definition extract_text_from_element :: "element \<Rightarrow> string" where
  "extract_text_from_element element =
     (let texts = [];
          texts = fold append_text (iter_tag element (qn_w ''t'')) texts;
          texts = fold append_text (iter_tag element (qn_w ''delText'')) texts
      in concat texts)"

definition get_accepted_text :: "Paragraph \<Rightarrow> string" where
  "get_accepted_text paragraph =
     concat (fold (\<lambda>(tag_type, element) result.
                if tag_type \<in> {''run'', ''ins''}
                then result @ [extract_text_from_element element] else result)
              (iter_paragraph_content paragraph) [])"

text \<open>
  The exceptions the date parser can raise. \<^verbatim>\<open>datetime.fromisoformat\<close> belongs to the
  Python library, so it is a parameter of \<open>get_revisions\<close>: it returns the instant or the
  exception it raises. The type \<open>'dt\<close> stands for \<^verbatim>\<open>datetime\<close>.
\<close>

datatype py_exception = ValueError | AttributeError | OtherError

record 'dt revision =
  rev_type :: string
  rev_text :: string
  rev_author :: string
  rev_date :: "'dt option"

text \<open>\<^verbatim>\<open>date_str.replace("Z", "+00:00")\<close>.\<close>

definition replace_Z :: "string \<Rightarrow> string" where
  "replace_Z s = concat (map (\<lambda>c. if c = CHR ''Z'' then ''+00:00'' else [c]) s)"

text \<open>
  The loop of \<open>get_revisions\<close>. \<^verbatim>\<open>contextlib.suppress(ValueError, AttributeError)\<close> leaves
  \<open>date\<close> at \<^verbatim>\<open>None\<close> for these two exceptions; any other one leaves the function.
\<close>

fun get_revisions_loop ::
  "(string \<Rightarrow> py_exception + 'dt) \<Rightarrow> (string \<times> element) list \<Rightarrow> 'dt revision list
     \<Rightarrow> py_exception + 'dt revision list" where
  "get_revisions_loop fromisoformat [] revisions = Inr revisions"
| "get_revisions_loop fromisoformat ((tag_type, element) # rest) revisions =
     (if tag_type \<in> {''ins'', ''del''} then
        (let author = (case get_attr element (qn_w ''author'') of
                         None \<Rightarrow> ''Unknown'' | Some a \<Rightarrow> a);
             date_str = get_attr element (qn_w ''date'');
             parsed = (case date_str of
                         None \<Rightarrow> Inr None
                       | Some ds \<Rightarrow>
                           if ds = [] then Inr None
                           else (case fromisoformat (replace_Z ds) of
                                   Inr d \<Rightarrow> Inr (Some d)
                                 | Inl ValueError \<Rightarrow> Inr None
                                 | Inl AttributeError \<Rightarrow> Inr None
                                 | Inl e \<Rightarrow> Inl e))
         in case parsed of
              Inl e \<Rightarrow> Inl e
            | Inr date \<Rightarrow>
                (let text = extract_text_from_element element in
                 if text \<noteq> [] then
                   get_revisions_loop fromisoformat rest
                     (revisions @ [\<lparr>rev_type = tag_type, rev_text = text, rev_author = author,
                                    rev_date = date\<rparr>])
                 else get_revisions_loop fromisoformat rest revisions))
      else get_revisions_loop fromisoformat rest revisions)"

definition get_revisions ::
  "(string \<Rightarrow> py_exception + 'dt) \<Rightarrow> Paragraph \<Rightarrow> py_exception + 'dt revision list" where
  "get_revisions fromisoformat paragraph =
     get_revisions_loop fromisoformat (iter_paragraph_content paragraph) []"

section \<open>Building elements\<close>

text \<open>
  lxml accepts as the text of an element only strings that XML can hold (no NUL and no control
  character) and raises \<^verbatim>\<open>ValueError\<close> otherwise; the texts and authors given to the
  functions below are taken to be such strings.
\<close>

definition create_run_with_text :: "string \<Rightarrow> element" where
  "create_run_with_text text =
     (let run = OxmlElement (qn_w ''r'');
          t_elem = OxmlElement (qn_w ''t'');
          t_elem = set_text t_elem text;
          t_elem = set_attr t_elem (XML_NS, ''space'') ''preserve''
      in append_child run t_elem)"

definition create_del_run_with_text :: "string \<Rightarrow> element" where
  "create_del_run_with_text text =
     (let run = OxmlElement (qn_w ''r'');
          del_text = OxmlElement (qn_w ''delText'');
          del_text = set_text del_text text;
          del_text = set_attr del_text (XML_NS, ''space'') ''preserve''
      in append_child run del_text)"

text \<open>
  \<^verbatim>\<open>date.isoformat()\<close> belongs to the Python library as well: \<open>isoformat\<close> is a
  parameter of every function that writes a date.
\<close>

definition create_deletion_element :: "('dt \<Rightarrow> string) \<Rightarrow> string \<Rightarrow> string \<Rightarrow> 'dt \<Rightarrow> element" where
  "create_deletion_element isoformat text author date =
     (let del_elem = OxmlElement (qn_w ''del'');
          del_elem = set_attr del_elem (qn_w ''author'') author;
          del_elem = set_attr del_elem (qn_w ''date'') (isoformat date);
          del_elem = set_attr del_elem (qn_w ''id'') ''0''
      in append_child del_elem (create_del_run_with_text text))"

section \<open>Insertion\<close>

text \<open>
  \<^verbatim>\<open>parent.insert(i, x)\<close> and the removal of the child at index \<open>i\<close>.
\<close>

definition list_insert :: "'a list \<Rightarrow> nat \<Rightarrow> 'a \<Rightarrow> 'a list" where
  "list_insert xs i x = take i xs @ [x] @ drop i xs"

definition remove_at :: "'a list \<Rightarrow> nat \<Rightarrow> 'a list" where
  "remove_at xs i = take i xs @ drop (Suc i) xs"

text \<open>
  The halves of a split element: an \<^verbatim>\<open>ins\<close> element is rebuilt with the attributes of
  the original, anything else becomes a plain run.
\<close>

definition rebuild_piece :: "string \<Rightarrow> element \<Rightarrow> string \<Rightarrow> element" where
  "rebuild_piece tg original piece_text =
     (if tg = ''ins'' then
        (let elem = OxmlElement (qn_w ''ins'');
             elem = copy_attrib original elem
         in append_child elem (create_run_with_text piece_text))
      else create_run_with_text piece_text)"

text \<open>
  \<open>split_and_insert\<close>. lxml compares elements by identity, so
  \<^verbatim>\<open>list(parent).index(target)\<close> is the position of the child the caller's loop is at;
  the model is given this position as \<open>target_index\<close>.
\<close>

definition split_and_insert ::
  "element list \<Rightarrow> element \<Rightarrow> nat \<Rightarrow> element \<Rightarrow> int \<Rightarrow> element list" where
  "split_and_insert parent target target_index new_element offset =
     (let text = extract_text_from_element target;
          before_text = slice_to text offset;
          after_text = slice_from text offset;
          tg = localname target;
          parent = remove_at parent target_index;
          (parent, target_index) =
            (if before_text \<noteq> [] then
               (list_insert parent target_index (rebuild_piece tg target before_text),
                target_index + 1)
             else (parent, target_index));
          parent = list_insert parent target_index new_element;
          target_index = target_index + 1
      in if after_text \<noteq> [] then
           list_insert parent target_index (rebuild_piece tg target after_text)
         else parent)"

text \<open>
  The loop of \<open>insert_at_position\<close> over a snapshot of the children: \<open>parent\<close> is the whole
  list, \<open>rest\<close> the children still to visit, the first of them at index \<open>i\<close>.
\<close>

fun insert_at_position_loop ::
  "element list \<Rightarrow> element list \<Rightarrow> nat \<Rightarrow> element \<Rightarrow> int \<Rightarrow> int \<Rightarrow> element list" where
  "insert_at_position_loop parent [] i new_element position current_pos =
     parent @ [new_element]"
| "insert_at_position_loop parent (child # rest) i new_element position current_pos =
     (let tg = localname child in
      if tg \<in> {''r'', ''ins''} then
        (let text = extract_text_from_element child;
             text_len = int (length text)
         in if current_pos + text_len > position then
              split_and_insert parent child i new_element (position - current_pos)
            else insert_at_position_loop parent rest (Suc i) new_element position
                   (current_pos + text_len))
      else insert_at_position_loop parent rest (Suc i) new_element position current_pos)"

definition insert_at_position :: "Paragraph \<Rightarrow> element \<Rightarrow> int \<Rightarrow> Paragraph" where
  "insert_at_position paragraph new_element position =
     insert_at_position_loop paragraph paragraph 0 new_element position 0"

text \<open>
  The public functions take the clock reading \<open>now\<close> that \<^verbatim>\<open>datetime.now()\<close> would give,
  and \<open>date\<close> as an option (\<^verbatim>\<open>None\<close> is the default). They return the paragraph they leave
  behind. The defaults of \<open>position\<close> (\<open>-1\<close>) and \<open>author\<close> (\<^verbatim>\<open>"Agent"\<close>) are the
  caller's to write out.
\<close>

definition insert_with_tracking ::
  "('dt \<Rightarrow> string) \<Rightarrow> 'dt \<Rightarrow> Paragraph \<Rightarrow> string \<Rightarrow> int \<Rightarrow> string \<Rightarrow> 'dt option \<Rightarrow> Paragraph" where
  "insert_with_tracking isoformat now paragraph text position author date =
     (let date = (case date of None \<Rightarrow> now | Some d \<Rightarrow> d);
          ins_elem = OxmlElement (qn_w ''ins'');
          ins_elem = set_attr ins_elem (qn_w ''author'') author;
          ins_elem = set_attr ins_elem (qn_w ''date'') (isoformat date);
          ins_elem = set_attr ins_elem (qn_w ''id'') ''0'';
          run = create_run_with_text text;
          ins_elem = append_child ins_elem run
      in if position = - 1 then paragraph @ [ins_elem]
         else insert_at_position paragraph ins_elem position)"

section \<open>Deletion\<close>

definition split_for_deletion ::
  "('dt \<Rightarrow> string) \<Rightarrow> string \<Rightarrow> int \<Rightarrow> int \<Rightarrow> int \<Rightarrow> string \<Rightarrow> 'dt \<Rightarrow> string \<Rightarrow> element
     \<Rightarrow> element list" where
  "split_for_deletion isoformat text elem_start del_start del_end author date tg original =
     (let result = [];
          local_del_start = max 0 (del_start - elem_start);
          local_del_end = min (int (length text)) (del_end - elem_start);
          before = slice_to text local_del_start;
          deleted = slice text local_del_start local_del_end;
          after = slice_from text local_del_end;
          result = (if before \<noteq> [] then result @ [rebuild_piece tg original before]
                    else result);
          result = (if deleted \<noteq> [] then
                      result @ [create_deletion_element isoformat deleted author date]
                    else result);
          result = (if after \<noteq> [] then result @ [rebuild_piece tg original after]
                    else result)
      in result)"

text \<open>
  The loop of \<open>mark_range_as_deleted\<close>; the function then replaces the children of the paragraph
  by \<open>new_children\<close>.
\<close>

fun mark_range_loop ::
  "('dt \<Rightarrow> string) \<Rightarrow> element list \<Rightarrow> int \<Rightarrow> int \<Rightarrow> string \<Rightarrow> 'dt \<Rightarrow> int \<Rightarrow> element list
     \<Rightarrow> element list" where
  "mark_range_loop isoformat [] start end author date current_pos new_children = new_children"
| "mark_range_loop isoformat (child # rest) start end author date current_pos new_children =
     (let tg = localname child in
      if tg = ''del'' then
        mark_range_loop isoformat rest start end author date current_pos (new_children @ [child])
      else if tg \<notin> {''r'', ''ins''} then
        mark_range_loop isoformat rest start end author date current_pos (new_children @ [child])
      else
        (let text = extract_text_from_element child;
             text_len = int (length text);
             elem_start = current_pos;
             elem_end = current_pos + text_len;
             new_children =
               (if elem_end \<le> start \<or> elem_start \<ge> end then new_children @ [child]
                else if elem_start \<ge> start \<and> elem_end \<le> end then
                  new_children @ [create_deletion_element isoformat text author date]
                else new_children @
                  split_for_deletion isoformat text elem_start start end author date tg child)
         in mark_range_loop isoformat rest start end author date (current_pos + text_len)
              new_children))"

definition mark_range_as_deleted ::
  "('dt \<Rightarrow> string) \<Rightarrow> Paragraph \<Rightarrow> int \<Rightarrow> int \<Rightarrow> string \<Rightarrow> 'dt \<Rightarrow> Paragraph" where
  "mark_range_as_deleted isoformat paragraph start end author date =
     mark_range_loop isoformat paragraph start end author date 0 []"

definition delete_with_tracking ::
  "('dt \<Rightarrow> string) \<Rightarrow> 'dt \<Rightarrow> Paragraph \<Rightarrow> int \<Rightarrow> int \<Rightarrow> string \<Rightarrow> 'dt option \<Rightarrow> Paragraph" where
  "delete_with_tracking isoformat now paragraph start_offset end_offset author date =
     (let date = (case date of None \<Rightarrow> now | Some d \<Rightarrow> d)
      in if start_offset \<ge> end_offset then paragraph
         else mark_range_as_deleted isoformat paragraph start_offset end_offset author date)"

section \<open>Replacement\<close>

text \<open>
  \<open>replace_with_tracking\<close> and the two functions it calls each have their own
  \<^verbatim>\<open>datetime.now()\<close>, evaluated at different moments. The function is given the clock as
  \<open>clock\<close>: \<open>clock 0\<close> is what its own \<^verbatim>\<open>datetime.now()\<close> gives, \<open>clock 1\<close> what the one of
  the call of \<open>delete_with_tracking\<close> would give, and \<open>clock 2\<close> what the one of the call of
  \<open>insert_with_tracking\<close> would give.
\<close>

definition replace_with_tracking ::
  "('dt \<Rightarrow> string) \<Rightarrow> (nat \<Rightarrow> 'dt) \<Rightarrow> Paragraph \<Rightarrow> string \<Rightarrow> string \<Rightarrow> string \<Rightarrow> 'dt option
     \<Rightarrow> Paragraph \<times> bool" where
  "replace_with_tracking isoformat clock paragraph old_text new_text author date =
     (let date = (case date of None \<Rightarrow> clock 0 | Some d \<Rightarrow> d);
          accepted = get_accepted_text paragraph;
          pos = str_find accepted old_text
      in if pos = - 1 then (paragraph, False)
         else
           (let paragraph = delete_with_tracking isoformat (clock 1) paragraph pos
                              (pos + int (length old_text)) author (Some date);
                paragraph = insert_with_tracking isoformat (clock 2) paragraph new_text pos author
                              (Some date)
            in (paragraph, True)))"

section \<open>Notions of the specification\<close>

text \<open>
  The raw text of the specification (its invariant I2): the texts of all segments, the deleted
  ones included. The segments are the children that \<open>iter_paragraph_content\<close> yields.
\<close>

definition raw_text :: "Paragraph \<Rightarrow> string" where
  "raw_text paragraph =
     concat (map (\<lambda>(tag_type, element). extract_text_from_element element)
       (iter_paragraph_content paragraph))"

text \<open>
  The paragraphs that a sequence of calls of the three editing functions reaches from \<open>p0\<close>.
\<close>

inductive reachable :: "('dt \<Rightarrow> string) \<Rightarrow> Paragraph \<Rightarrow> Paragraph \<Rightarrow> bool"
  for isoformat :: "'dt \<Rightarrow> string" and p0 :: Paragraph where
  reachable_start: "reachable isoformat p0 p0"
| reachable_insert:
    "reachable isoformat p0 p \<Longrightarrow>
     reachable isoformat p0 (insert_with_tracking isoformat now p text position author date)"
| reachable_delete:
    "reachable isoformat p0 p \<Longrightarrow>
     reachable isoformat p0
       (delete_with_tracking isoformat now p start_offset end_offset author date)"
| reachable_replace:
    "reachable isoformat p0 p \<Longrightarrow>
     reachable isoformat p0
       (fst (replace_with_tracking isoformat clock p old_text new_text author date))"


text \<open>
  A paragraph without nested deletions: no \<^verbatim>\<open>r\<close> or \<^verbatim>\<open>ins\<close> child has a
  \<^verbatim>\<open>del\<close> element or a \<^verbatim>\<open>w:delText\<close> element inside it. A paragraph loaded from
  plain text is one.
\<close>

definition no_deletion_inside :: "element \<Rightarrow> bool" where
  "no_deletion_inside e \<longleftrightarrow>
     (\<forall>x \<in> set (iter_elems e). localname x \<noteq> ''del'' \<and> tag x \<noteq> qn_w ''delText'')"

definition no_nested_deletion :: "Paragraph \<Rightarrow> bool" where
  "no_nested_deletion p \<longleftrightarrow>
     (\<forall>c \<in> set p. localname c \<in> {''r'', ''ins''} \<longrightarrow> no_deletion_inside c)"

section \<open>Elements built by the library\<close>

lemma qn_w_eq [simp]: "qn_w a = qn_w b \<longleftrightarrow> a = b"
  by (simp add: qn_w_def)

lemma snd_qn_w [simp]: "snd (qn_w a) = a"
  by (simp add: qn_w_def)

lemma concat_fold_append_text:
  "concat (fold append_text es acc) =
     concat acc @ concat (map (\<lambda>e. case elem_text e of None \<Rightarrow> [] | Some s \<Rightarrow> s) es)"
  by (induction es arbitrary: acc) (auto simp: append_text_def split: option.splits)

lemma extract_text_eq:
  "extract_text_from_element e =
     concat (map (\<lambda>e. case elem_text e of None \<Rightarrow> [] | Some s \<Rightarrow> s) (iter_tag e (qn_w ''t''))) @
     concat (map (\<lambda>e. case elem_text e of None \<Rightarrow> [] | Some s \<Rightarrow> s) (iter_tag e (qn_w ''delText'')))"
  by (simp add: extract_text_from_element_def concat_fold_append_text)

lemma extract_create_run [simp]:
  "extract_text_from_element (create_run_with_text t) = t"
  by (simp add: extract_text_eq create_run_with_text_def iter_tag_def OxmlElement_def
      set_text_def set_attr_def append_child_def)

lemma extract_create_del_run [simp]:
  "extract_text_from_element (create_del_run_with_text t) = t"
  by (simp add: extract_text_eq create_del_run_with_text_def iter_tag_def OxmlElement_def
      set_text_def set_attr_def append_child_def)

lemma localname_create_run [simp]: "localname (create_run_with_text t) = ''r''"
  by (simp add: create_run_with_text_def localname_def OxmlElement_def append_child_def)

lemma iter_tag_wrap:
  "tag e = qn_w l \<Longrightarrow> l \<noteq> k \<Longrightarrow> children e = [] \<Longrightarrow>
   iter_tag (append_child e c) (qn_w k) = iter_tag c (qn_w k)"
  by (cases e) (simp add: iter_tag_def append_child_def)

lemma extract_wrap:
  "tag e = qn_w l \<Longrightarrow> l \<noteq> ''t'' \<Longrightarrow> l \<noteq> ''delText'' \<Longrightarrow> children e = [] \<Longrightarrow>
   extract_text_from_element (append_child e c) = extract_text_from_element c"
  by (simp add: extract_text_eq iter_tag_wrap)

lemma set_attr_sel [simp]:
  "tag (set_attr e k v) = tag e" "children (set_attr e k v) = children e"
  "elem_text (set_attr e k v) = elem_text e"
  by (simp_all add: set_attr_def)

lemma copy_attrib_sel [simp]:
  "tag (copy_attrib original e) = tag e" "children (copy_attrib original e) = children e"
  "elem_text (copy_attrib original e) = elem_text e"
proof -
  have "tag (fold (\<lambda>attr el. case get_attr original attr of Some v \<Rightarrow> set_attr el attr v | None \<Rightarrow> el) ks e) = tag e
      \<and> children (fold (\<lambda>attr el. case get_attr original attr of Some v \<Rightarrow> set_attr el attr v | None \<Rightarrow> el) ks e) = children e
      \<and> elem_text (fold (\<lambda>attr el. case get_attr original attr of Some v \<Rightarrow> set_attr el attr v | None \<Rightarrow> el) ks e) = elem_text e" for ks
    by (induction ks arbitrary: e) (auto split: option.splits)
  then show "tag (copy_attrib original e) = tag e" "children (copy_attrib original e) = children e"
  "elem_text (copy_attrib original e) = elem_text e"
    by (simp_all add: copy_attrib_def)
qed

lemma OxmlElement_sel [simp]:
  "tag (OxmlElement q) = q" "children (OxmlElement q) = []" "attrib (OxmlElement q) = []"
  "elem_text (OxmlElement q) = None"
  by (simp_all add: OxmlElement_def)

lemma append_child_sel [simp]:
  "tag (append_child e c) = tag e" "attrib (append_child e c) = attrib e"
  by (simp_all add: append_child_def)

lemma extract_rebuild_piece [simp]:
  "extract_text_from_element (rebuild_piece tg original t) = t"
  by (simp add: rebuild_piece_def extract_wrap [where l = "''ins''"])

lemma localname_rebuild_piece [simp]:
  "localname (rebuild_piece tg original t) = (if tg = ''ins'' then ''ins'' else ''r'')"
  by (simp add: rebuild_piece_def) (simp add: localname_def)

lemma extract_deletion_element [simp]:
  "extract_text_from_element (create_deletion_element isoformat t author date) = t"
  by (simp add: create_deletion_element_def extract_wrap [where l = "''del''"])

lemma localname_deletion_element [simp]:
  "localname (create_deletion_element isoformat t author date) = ''del''"
  by (simp add: create_deletion_element_def localname_def)

lemma attrib_deletion_element:
  "attrib (create_deletion_element isoformat t author date) =
     [(qn_w ''author'', author), (qn_w ''date'', isoformat date), (qn_w ''id'', ''0'')]"
  by (simp add: create_deletion_element_def set_attr_def)

lemma children_deletion_element:
  "children (create_deletion_element isoformat t author date) = [create_del_run_with_text t]"
  by (simp add: create_deletion_element_def append_child_def)

section \<open>The accepted and the raw text of a list of children\<close>

lemma concat_fold_accepted:
  "concat (fold (\<lambda>(tag_type, element) result.
                if tag_type \<in> {''run'', ''ins''}
                then result @ [extract_text_from_element element] else result) ps acc) =
   concat acc @ concat (map (\<lambda>(tag_type, element).
       if tag_type \<in> {''run'', ''ins''} then extract_text_from_element element else []) ps)"
  by (induction ps arbitrary: acc) (auto split: prod.splits)

lemma get_accepted_text_Nil [simp]: "get_accepted_text [] = []"
  by (simp add: get_accepted_text_def)

lemma get_accepted_text_eq:
  "get_accepted_text p =
     concat (map (\<lambda>(tag_type, element).
       if tag_type \<in> {''run'', ''ins''} then extract_text_from_element element else [])
       (iter_paragraph_content p))"
  by (simp only: get_accepted_text_def concat_fold_accepted) simp

lemma get_accepted_text_Cons:
  "get_accepted_text (x # xs) =
     (if localname x \<in> {''r'', ''ins''} then extract_text_from_element x else []) @
     get_accepted_text xs"
  by (simp add: get_accepted_text_eq Let_def)

lemma get_accepted_text_append [simp]:
  "get_accepted_text (xs @ ys) = get_accepted_text xs @ get_accepted_text ys"
  by (induction xs) (simp_all add: get_accepted_text_Cons)


lemma raw_text_Nil [simp]: "raw_text [] = []"
  by (simp add: raw_text_def)

lemma raw_text_Cons:
  "raw_text (x # xs) =
     (if localname x \<in> {''r'', ''ins'', ''del''} then extract_text_from_element x else []) @
     raw_text xs"
  by (simp add: raw_text_def Let_def)

lemma raw_text_append [simp]: "raw_text (xs @ ys) = raw_text xs @ raw_text ys"
  by (induction xs) (simp_all add: raw_text_Cons)

lemma slice_to_from [simp]: "slice_to xs k @ slice_from xs k = xs"
  by (simp add: slice_to_def slice_from_def)

lemma slice_nonneg:
  "0 \<le> a \<Longrightarrow> slice_to xs a = take (nat a) xs"
  "0 \<le> a \<Longrightarrow> slice_from xs a = drop (nat a) xs"
  "0 \<le> a \<Longrightarrow> 0 \<le> b \<Longrightarrow> slice xs a b = take (nat b - nat a) (drop (nat a) xs)"
  by (simp_all add: slice_to_def slice_from_def slice_def slice_bound_def)

lemma slice_parts:
  assumes "0 \<le> a" "a \<le> b"
  shows "slice_to xs a @ slice xs a b @ slice_from xs b = xs"
proof -
  have "take (nat b - nat a) (drop (nat a) xs) @ drop (nat b - nat a) (drop (nat a) xs) =
        drop (nat a) xs"
    by (rule append_take_drop_id)
  moreover have "nat b - nat a + nat a = nat b"
    using assms by simp
  ultimately have "take (nat b - nat a) (drop (nat a) xs) @ drop (nat b) xs = drop (nat a) xs"
    by simp
  with assms show ?thesis by (simp add: slice_nonneg)
qed

section \<open>The deletion loop\<close>

lemma mark_range_loop_acc2:
  "mark_range_loop isoformat xs s e a d cur (acc @ acc') =
     acc @ mark_range_loop isoformat xs s e a d cur acc'"
proof (induction xs arbitrary: cur acc acc')
  case Nil
  show ?case by simp
next
  case (Cons c rest)
  show ?case
    by (simp add: Let_def Cons.IH)
qed

lemma mark_range_loop_acc:
  "mark_range_loop isoformat xs s e a d cur acc = acc @ mark_range_loop isoformat xs s e a d cur []"
  using mark_range_loop_acc2 [of isoformat xs s e a d cur acc "[]"] by simp

lemma mark_range_loop_Cons:
  "mark_range_loop isoformat (c # rest) s e a d cur [] =
     mark_range_loop isoformat [c] s e a d cur [] @
     mark_range_loop isoformat rest s e a d (cur + int (length (get_accepted_text [c]))) []"
  by (simp add: Let_def get_accepted_text_Cons
        mark_range_loop_acc [of _ _ _ _ _ _ _ "[x]" for x]
        mark_range_loop_acc [of _ _ _ _ _ _ _ "split_for_deletion u1 u2 u3 u4 u5 u6 u7 u8 u9" for u1 u2 u3 u4 u5 u6 u7 u8 u9])

lemma mark_range_loop_append:
  "mark_range_loop isoformat (xs @ ys) s e a d cur [] =
     mark_range_loop isoformat xs s e a d cur [] @
     mark_range_loop isoformat ys s e a d (cur + int (length (get_accepted_text xs))) []"
proof (induction xs arbitrary: cur)
  case Nil
  show ?case by simp
next
  case (Cons c rest)
  have "mark_range_loop isoformat ((c # rest) @ ys) s e a d cur [] =
        mark_range_loop isoformat [c] s e a d cur [] @
        mark_range_loop isoformat (rest @ ys) s e a d
          (cur + int (length (get_accepted_text [c]))) []"
    using mark_range_loop_Cons [of isoformat c "rest @ ys"] by simp
  also have "\<dots> = mark_range_loop isoformat [c] s e a d cur [] @
        (mark_range_loop isoformat rest s e a d (cur + int (length (get_accepted_text [c]))) [] @
         mark_range_loop isoformat ys s e a d
           (cur + int (length (get_accepted_text [c])) + int (length (get_accepted_text rest))) [])"
    by (simp only: Cons.IH)
  also have "\<dots> = mark_range_loop isoformat (c # rest) s e a d cur [] @
         mark_range_loop isoformat ys s e a d
           (cur + int (length (get_accepted_text (c # rest)))) []"
    using mark_range_loop_Cons [of isoformat c rest s e a d cur]
      get_accepted_text_append [of "[c]" rest]
    by (simp add: add.assoc)
  finally show ?case .
qed

lemma accepted_singleton:
  "get_accepted_text [c] =
     (if localname c \<in> {''r'', ''ins''} then extract_text_from_element c else [])"
  by (simp add: get_accepted_text_Cons)

lemma raw_singleton:
  "raw_text [c] =
     (if localname c \<in> {''r'', ''ins'', ''del''} then extract_text_from_element c else [])"
  by (simp add: raw_text_Cons)

lemma accepted_rebuild_piece [simp]:
  "get_accepted_text [rebuild_piece tg original t] = t"
  by (simp add: accepted_singleton)

lemma raw_rebuild_piece [simp]:
  "raw_text [rebuild_piece tg original t] = t"
  by (simp add: raw_singleton)

lemma accepted_deletion_element [simp]:
  "get_accepted_text [create_deletion_element isoformat t a d] = []"
  by (simp add: accepted_singleton)

lemma raw_deletion_element [simp]:
  "raw_text [create_deletion_element isoformat t a d] = t"
  by (simp add: raw_singleton)

lemma split_for_deletion_eq:
  "split_for_deletion isoformat t cur s e a d tg c =
     (if slice_to t (max 0 (s - cur)) \<noteq> []
      then [rebuild_piece tg c (slice_to t (max 0 (s - cur)))] else []) @
     (if slice t (max 0 (s - cur)) (min (int (length t)) (e - cur)) \<noteq> []
      then [create_deletion_element isoformat
              (slice t (max 0 (s - cur)) (min (int (length t)) (e - cur))) a d] else []) @
     (if slice_from t (min (int (length t)) (e - cur)) \<noteq> []
      then [rebuild_piece tg c (slice_from t (min (int (length t)) (e - cur)))] else [])"
  by (simp add: split_for_deletion_def Let_def)

lemma accepted_opt_piece:
  "get_accepted_text (if u \<noteq> [] then [rebuild_piece tg c u] else []) = u"
  "raw_text (if u \<noteq> [] then [rebuild_piece tg c u] else []) = u"
  "get_accepted_text (if u \<noteq> [] then [create_deletion_element isoformat u a d] else []) = []"
  "raw_text (if u \<noteq> [] then [create_deletion_element isoformat u a d] else []) = u"
  by simp_all

lemma accepted_split_for_deletion:
  assumes "cur < e"
  shows "get_accepted_text (split_for_deletion isoformat t cur s e a d tg c) =
         take (nat (s - cur)) t @ drop (nat (e - cur)) t"
proof -
  have 1: "slice_to t (max 0 (s - cur)) = take (nat (s - cur)) t"
    by (simp add: slice_nonneg max_def)
  have 2: "slice_from t (min (int (length t)) (e - cur)) = drop (nat (e - cur)) t"
    using assms by (simp add: slice_nonneg min_def)
  show ?thesis
    unfolding split_for_deletion_eq get_accepted_text_append accepted_opt_piece
    by (simp add: 1 2)
qed

lemma raw_split_for_deletion:
  assumes "cur < e" "s < e" "s - cur \<le> int (length t)"
  shows "raw_text (split_for_deletion isoformat t cur s e a d tg c) = t"
proof -
  have "0 \<le> max 0 (s - cur)" "max 0 (s - cur) \<le> min (int (length t)) (e - cur)"
    using assms by auto
  from slice_parts [OF this, of t] show ?thesis
    unfolding split_for_deletion_eq raw_text_append accepted_opt_piece
    by simp
qed

lemma mark_single:
  "mark_range_loop isoformat [c] s e a d cur [] =
    (if localname c \<notin> {''r'', ''ins''} then [c]
     else if cur + int (length (extract_text_from_element c)) \<le> s \<or> cur \<ge> e then [c]
     else if cur \<ge> s \<and> cur + int (length (extract_text_from_element c)) \<le> e
       then [create_deletion_element isoformat (extract_text_from_element c) a d]
     else split_for_deletion isoformat (extract_text_from_element c) cur s e a d (localname c) c)"
  by (simp add: Let_def)

declare mark_range_loop.simps(2) [simp del]

lemma accepted_mark_single:
  assumes "s < e"
  shows "get_accepted_text (mark_range_loop isoformat [c] s e a d cur []) =
         take (nat (s - cur)) (get_accepted_text [c]) @
         drop (nat (e - cur)) (get_accepted_text [c])"
proof (cases "localname c \<in> {''r'', ''ins''}")
  case False
  then show ?thesis by (simp add: mark_single accepted_singleton)
next
  case True
  let ?t = "extract_text_from_element c"
  have T: "get_accepted_text [c] = ?t" using True by (simp add: accepted_singleton)
  consider (out) "cur + int (length ?t) \<le> s \<or> cur \<ge> e"
    | (full) "\<not> (cur + int (length ?t) \<le> s \<or> cur \<ge> e)" "cur \<ge> s \<and> cur + int (length ?t) \<le> e"
    | (part) "\<not> (cur + int (length ?t) \<le> s \<or> cur \<ge> e)" "\<not> (cur \<ge> s \<and> cur + int (length ?t) \<le> e)"
    by blast
  then show ?thesis
  proof cases
    case out
    then have "mark_range_loop isoformat [c] s e a d cur [] = [c]"
      by (simp add: mark_single)
    moreover from out assms have "take (nat (s - cur)) ?t @ drop (nat (e - cur)) ?t = ?t"
      by auto
    ultimately show ?thesis by (simp add: T)
  next
    case full
    then have "mark_range_loop isoformat [c] s e a d cur [] =
        [create_deletion_element isoformat ?t a d]"
      using True by (simp add: mark_single)
    moreover from full have "take (nat (s - cur)) ?t @ drop (nat (e - cur)) ?t = []"
      by auto
    ultimately show ?thesis by (simp add: T)
  next
    case part
    then have "mark_range_loop isoformat [c] s e a d cur [] =
        split_for_deletion isoformat ?t cur s e a d (localname c) c"
      using True by (auto simp add: mark_single)
    moreover from part have "cur < e" by auto
    ultimately show ?thesis by (simp add: T accepted_split_for_deletion)
  qed
qed

lemma raw_mark_single:
  assumes "s < e"
  shows "raw_text (mark_range_loop isoformat [c] s e a d cur []) = raw_text [c]"
proof (cases "localname c \<in> {''r'', ''ins''}")
  case False
  then show ?thesis by (simp add: mark_single)
next
  case True
  let ?t = "extract_text_from_element c"
  have T: "raw_text [c] = ?t" using True by (auto simp add: raw_singleton)
  consider (out) "cur + int (length ?t) \<le> s \<or> cur \<ge> e"
    | (full) "\<not> (cur + int (length ?t) \<le> s \<or> cur \<ge> e)" "cur \<ge> s \<and> cur + int (length ?t) \<le> e"
    | (part) "\<not> (cur + int (length ?t) \<le> s \<or> cur \<ge> e)" "\<not> (cur \<ge> s \<and> cur + int (length ?t) \<le> e)"
    by blast
  then show ?thesis
  proof cases
    case out
    then show ?thesis by (simp add: mark_single)
  next
    case full
    then have "mark_range_loop isoformat [c] s e a d cur [] =
        [create_deletion_element isoformat ?t a d]"
      using True by (simp add: mark_single)
    then show ?thesis by (simp add: T)
  next
    case part
    then have "mark_range_loop isoformat [c] s e a d cur [] =
        split_for_deletion isoformat ?t cur s e a d (localname c) c"
      using True by (auto simp add: mark_single)
    moreover from part have "cur < e" "s - cur \<le> int (length ?t)" by auto
    ultimately show ?thesis using assms by (simp add: T raw_split_for_deletion)
  qed
qed

lemma take_drop_append_split:
  assumes "a \<le> b"
  shows "take a (T @ A) @ drop b (T @ A) =
         (take a T @ drop b T) @ (take (a - length T) A @ drop (b - length T) A)"
proof (cases "a \<le> length T")
  case True
  then show ?thesis by simp
next
  case False
  with assms have "drop b T = []" by simp
  then show ?thesis by simp
qed

lemma accepted_mark_loop:
  assumes "s < e"
  shows "get_accepted_text (mark_range_loop isoformat xs s e a d cur []) =
         take (nat (s - cur)) (get_accepted_text xs) @
         drop (nat (e - cur)) (get_accepted_text xs)"
proof (induction xs arbitrary: cur)
  case Nil
  show ?case by simp
next
  case (Cons c rest)
  let ?T = "get_accepted_text [c]"
  let ?cur' = "cur + int (length ?T)"
  have A: "get_accepted_text (c # rest) = ?T @ get_accepted_text rest"
    using get_accepted_text_append [of "[c]" rest] by simp
  have le: "nat (s - cur) \<le> nat (e - cur)" using assms by simp
  have n1: "nat (s - ?cur') = nat (s - cur) - length ?T" by simp
  have n2: "nat (e - ?cur') = nat (e - cur) - length ?T" by simp
  show ?case
    unfolding mark_range_loop_Cons [of isoformat c rest] get_accepted_text_append
      accepted_mark_single [OF assms] Cons.IH A
      take_drop_append_split [OF le] n1 n2 ..
qed

lemma raw_mark_loop:
  assumes "s < e"
  shows "raw_text (mark_range_loop isoformat xs s e a d cur []) = raw_text xs"
proof (induction xs arbitrary: cur)
  case Nil
  show ?case by simp
next
  case (Cons c rest)
  have A: "raw_text (c # rest) = raw_text [c] @ raw_text rest"
    using raw_text_append [of "[c]" rest] by simp
  show ?case
    unfolding mark_range_loop_Cons [of isoformat c rest] raw_text_append
      raw_mark_single [OF assms] Cons.IH A ..
qed

section \<open>How many characters a deletion removes\<close>

text \<open>
  Claim C4. For a paragraph whose accepted text has length \<open>L\<close> and integers \<open>s < e\<close>, the
  accepted text after \<open>delete_with_tracking\<close> on \<open>[s, e)\<close> has length
  \<open>L - max 0 (min e L - max s 0)\<close>: the range is clamped to \<open>[0, L]\<close>.
\<close>

theorem delete_accepted_length:
  assumes "s < e"
  shows "int (length (get_accepted_text
           (delete_with_tracking isoformat now p s e author date))) =
         int (length (get_accepted_text p)) -
           max 0 (min e (int (length (get_accepted_text p))) - max s 0)"
proof -
  let ?A = "get_accepted_text p"
  have "get_accepted_text (delete_with_tracking isoformat now p s e author date) =
        take (nat s) ?A @ drop (nat e) ?A"
    using assms accepted_mark_loop [OF assms, of isoformat p author _ 0]
    by (simp add: delete_with_tracking_def mark_range_as_deleted_def Let_def)
  then have "int (length (get_accepted_text
           (delete_with_tracking isoformat now p s e author date))) =
        int (min (length ?A) (nat s) + (length ?A - nat e))"
    by simp
  also have "\<dots> = int (length ?A) - max 0 (min e (int (length ?A)) - max s 0)"
    using assms by (auto simp: min_def max_def)
  finally show ?thesis .
qed

theorem delete_accepted_length_witness:
  "(6::int) < 11 \<and>
   int (length (get_accepted_text
           (delete_with_tracking (\<lambda>d::string. d) ''t'' [create_run_with_text ''Hello world'']
              6 11 ''Bob'' None))) =
   int (length (get_accepted_text [create_run_with_text ''Hello world''])) -
     max 0 (min 11 (int (length (get_accepted_text [create_run_with_text ''Hello world'']))) -
            max 6 0)"
  using delete_accepted_length [of 6 11 "\<lambda>d::string. d" "''t''"
      "[create_run_with_text ''Hello world'']" "''Bob''" None]
  by simp

section \<open>What a deletion leaves alone\<close>

lemma mark_untouched:
  assumes "localname c \<notin> {''r'', ''ins''} \<or>
           cur + int (length (extract_text_from_element c)) \<le> s \<or> cur \<ge> e"
  shows "mark_range_loop isoformat [c] s e a d cur [] = [c]"
  using assms by (auto simp: mark_single)

lemma mark_context:
  "mark_range_loop isoformat (xs @ [c] @ ys) s e a d 0 [] =
     mark_range_loop isoformat xs s e a d 0 [] @
     mark_range_loop isoformat [c] s e a d (int (length (get_accepted_text xs))) [] @
     mark_range_loop isoformat ys s e a d (int (length (get_accepted_text (xs @ [c])))) []"
  using mark_range_loop_append [of isoformat xs "[c] @ ys" s e a d 0]
    mark_range_loop_append [of isoformat "[c]" ys s e a d "int (length (get_accepted_text xs))"]
  by (simp add: add.assoc)

text \<open>
  Claim C5. A call of \<open>delete_with_tracking\<close> leaves the raw text as it was, and a child that is
  not an \<^verbatim>\<open>r\<close> or \<^verbatim>\<open>ins\<close> element (so every \<^verbatim>\<open>del\<close> element that
  was there before), or whose range of accepted text \<open>[elem_start, elem_end)\<close> ends at or before
  \<open>start\<close> or begins at or after \<open>end\<close>, is in the output as the very same element, after
  what the children before it became.
\<close>

theorem delete_frame:
  "raw_text (delete_with_tracking isoformat now p s e author date) = raw_text p \<and>
   (\<forall>xs c ys. p = xs @ [c] @ ys \<and>
      (localname c \<notin> {''r'', ''ins''} \<or>
       int (length (get_accepted_text (xs @ [c]))) \<le> s \<or>
       e \<le> int (length (get_accepted_text xs))) \<longrightarrow>
      (\<exists>ys'. delete_with_tracking isoformat now p s e author date =
               delete_with_tracking isoformat now xs s e author date @ [c] @ ys' \<and>
             raw_text ys' = raw_text ys))"
proof (cases "s < e")
  case False
  then show ?thesis by (simp add: delete_with_tracking_def)
next
  case True
  define d where "d = (case date of None \<Rightarrow> now | Some d \<Rightarrow> d)"
  have del: "delete_with_tracking isoformat now q s e author date =
             mark_range_loop isoformat q s e author d 0 []" for q
    using True by (simp add: delete_with_tracking_def mark_range_as_deleted_def d_def)
  have raw: "raw_text (delete_with_tracking isoformat now p s e author date) = raw_text p"
    by (simp add: del raw_mark_loop [OF True])
  have frame: "\<exists>ys'. delete_with_tracking isoformat now p s e author date =
               delete_with_tracking isoformat now xs s e author date @ [c] @ ys' \<and>
             raw_text ys' = raw_text ys"
    if p: "p = xs @ [c] @ ys"
      and out: "localname c \<notin> {''r'', ''ins''} \<or>
         int (length (get_accepted_text (xs @ [c]))) \<le> s \<or>
         e \<le> int (length (get_accepted_text xs))"
    for xs c ys
  proof -
    have "localname c \<notin> {''r'', ''ins''} \<or>
          int (length (get_accepted_text xs)) + int (length (extract_text_from_element c)) \<le> s \<or>
          e \<le> int (length (get_accepted_text xs))"
      using out by (auto simp: accepted_singleton)
    then have "mark_range_loop isoformat [c] s e author d
                 (int (length (get_accepted_text xs))) [] = [c]"
      by (rule mark_untouched)
    then have "delete_with_tracking isoformat now p s e author date =
        delete_with_tracking isoformat now xs s e author date @ [c] @
        mark_range_loop isoformat ys s e author d (int (length (get_accepted_text (xs @ [c])))) []"
      unfolding del p mark_context by simp
    moreover have "raw_text (mark_range_loop isoformat ys s e author d
        (int (length (get_accepted_text (xs @ [c])))) []) = raw_text ys"
      by (rule raw_mark_loop [OF True])
    ultimately show ?thesis by blast
  qed
  from raw frame show ?thesis by blast
qed

theorem delete_frame_witness:
  "raw_text (delete_with_tracking (\<lambda>d::string. d) ''t1''
      [create_deletion_element (\<lambda>d. d) ''foo'' ''Old'' ''t0'',
       create_run_with_text ''Hello '', create_run_with_text ''world''] 6 11 ''Bob'' None) =
   ''fooHello world'' \<and>
   (\<exists>ys'. delete_with_tracking (\<lambda>d::string. d) ''t1''
      [create_deletion_element (\<lambda>d. d) ''foo'' ''Old'' ''t0'',
       create_run_with_text ''Hello '', create_run_with_text ''world''] 6 11 ''Bob'' None =
     delete_with_tracking (\<lambda>d::string. d) ''t1''
       [create_deletion_element (\<lambda>d. d) ''foo'' ''Old'' ''t0''] 6 11 ''Bob'' None @
     [create_run_with_text ''Hello ''] @ ys' \<and>
     raw_text ys' = ''world'')"
proof -
  let ?D = "create_deletion_element (\<lambda>d::string. d) ''foo'' ''Old'' ''t0''"
  let ?A = "create_run_with_text ''Hello ''"
  let ?B = "create_run_with_text ''world''"
  have p: "[?D, ?A, ?B] = [?D] @ [?A] @ [?B]" by simp
  have out: "int (length (get_accepted_text ([?D] @ [?A]))) \<le> 6"
    by (simp add: get_accepted_text_Cons)
  have raw: "raw_text [?D, ?A, ?B] = ''fooHello world''"
    by (simp add: raw_text_Cons)
  have rb: "raw_text [?B] = ''world''"
    by (simp add: raw_text_Cons)
  note f = delete_frame [of "\<lambda>d::string. d" "''t1''" "[?D, ?A, ?B]" 6 11 "''Bob''" None]
  from f have 1: "raw_text (delete_with_tracking (\<lambda>d::string. d) ''t1'' [?D, ?A, ?B] 6 11 ''Bob'' None) =
      ''fooHello world''"
    unfolding raw by (rule conjunct1)
  from f [THEN conjunct2, rule_format, of "[?D]" ?A "[?B]"] p out
  have 2: "\<exists>ys'. delete_with_tracking (\<lambda>d::string. d) ''t1'' [?D, ?A, ?B] 6 11 ''Bob'' None =
     delete_with_tracking (\<lambda>d::string. d) ''t1'' [?D] 6 11 ''Bob'' None @ [?A] @ ys' \<and>
     raw_text ys' = ''world''"
    unfolding rb by blast
  from 1 2 show ?thesis by (rule conjI)
qed



section \<open>The attribution of deleted insertions\<close>

lemma take_min_length: "take (min (length xs) n - a) (drop a xs) = take (n - a) (drop a xs)"
  by (cases "n \<le> length xs") (simp_all add: min_def)

lemma split_middle:
  assumes "cur < e"
  shows "slice t (max 0 (s - cur)) (min (int (length t)) (e - cur)) =
         take (nat (e - cur) - nat (s - cur)) (drop (nat (s - cur)) t)"
proof -
  have 1: "nat (max 0 (s - cur)) = nat (s - cur)" by (simp add: max_def)
  have 2: "nat (min (int (length t)) (e - cur)) = min (length t) (nat (e - cur))"
    using assms by (simp add: min_def)
  have "slice t (max 0 (s - cur)) (min (int (length t)) (e - cur)) =
        take (nat (min (int (length t)) (e - cur)) - nat (max 0 (s - cur)))
          (drop (nat (max 0 (s - cur))) t)"
    using assms by (intro slice_nonneg(3)) auto
  then show ?thesis
    unfolding 1 2 by (simp only: take_min_length)
qed

lemma mark_overlap:
  assumes live: "localname c \<in> {''r'', ''ins''}"
    and ov: "\<not> (cur + int (length (extract_text_from_element c)) \<le> s \<or> e \<le> cur)"
    and se: "s < e"
  shows "mark_range_loop isoformat [c] s e a d cur [] =
           (if take (nat (s - cur)) (extract_text_from_element c) \<noteq> []
            then [rebuild_piece (localname c) c
                    (take (nat (s - cur)) (extract_text_from_element c))] else []) @
           [create_deletion_element isoformat
              (take (nat (e - cur) - nat (s - cur))
                 (drop (nat (s - cur)) (extract_text_from_element c))) a d] @
           (if drop (nat (e - cur)) (extract_text_from_element c) \<noteq> []
            then [rebuild_piece (localname c) c
                    (drop (nat (e - cur)) (extract_text_from_element c))] else [])"
proof (cases "s \<le> cur \<and> cur + int (length (extract_text_from_element c)) \<le> e")
  case True
  let ?t = "extract_text_from_element c"
  have "mark_range_loop isoformat [c] s e a d cur [] = [create_deletion_element isoformat ?t a d]"
    using live ov True by (auto simp: mark_single)
  moreover have len: "length ?t \<le> nat (e - cur)" "nat (s - cur) = 0"
    using True by linarith+
  moreover have "take (nat (e - cur) - nat (s - cur)) (drop (nat (s - cur)) ?t) = ?t"
    using len by simp
  moreover have "take (nat (s - cur)) ?t = []" "drop (nat (e - cur)) ?t = []"
    using len by simp_all
  ultimately show ?thesis by simp
next
  case False
  let ?t = "extract_text_from_element c"
  let ?m = "take (nat (e - cur) - nat (s - cur)) (drop (nat (s - cur)) ?t)"
  have cur: "cur < e" using ov by simp
  have m: "slice ?t (max 0 (s - cur)) (min (int (length ?t)) (e - cur)) = ?m"
    by (rule split_middle [OF cur])
  have "nat (s - cur) < length ?t" "nat (s - cur) < nat (e - cur)"
    using ov se False by linarith+
  then have "0 < length ?t - nat (s - cur)" "0 < nat (e - cur) - nat (s - cur)"
    by linarith+
  moreover have "length ?m = min (length ?t - nat (s - cur)) (nat (e - cur) - nat (s - cur))"
    by (simp only: length_take length_drop)
  ultimately have "0 < length ?m"
    by (simp only: min_less_iff_conj)
  then have ne: "?m \<noteq> []"
    by (intro notI) (simp only: list.size less_irrefl)
  have b: "slice_to ?t (max 0 (s - cur)) = take (nat (s - cur)) ?t"
    by (simp add: slice_nonneg max_def)
  have af: "slice_from ?t (min (int (length ?t)) (e - cur)) = drop (nat (e - cur)) ?t"
    using cur by (simp add: slice_nonneg min_def)
  have "mark_range_loop isoformat [c] s e a d cur [] =
        split_for_deletion isoformat ?t cur s e a d (localname c) c"
    using live ov False by (auto simp: mark_single)
  also have "\<dots> =
      (if take (nat (s - cur)) ?t \<noteq> []
       then [rebuild_piece (localname c) c (take (nat (s - cur)) ?t)] else []) @
      [create_deletion_element isoformat ?m a d] @
      (if drop (nat (e - cur)) ?t \<noteq> []
       then [rebuild_piece (localname c) c (drop (nat (e - cur)) ?t)] else [])"
    unfolding split_for_deletion_eq m b af using ne by simp
  finally show ?thesis .
qed

lemma deletion_element_explicit:
  "create_deletion_element isoformat t author d =
     Element (qn_w ''del'')
       [(qn_w ''author'', author), (qn_w ''date'', isoformat d), (qn_w ''id'', ''0'')] None
       [Element (qn_w ''r'') [] None
          [Element (qn_w ''delText'') [((XML_NS, ''space''), ''preserve'')] (Some t) []]]"
  by (simp add: create_deletion_element_def create_del_run_with_text_def OxmlElement_def
      set_attr_def set_text_def append_child_def)

text \<open>
  Claim C6. When the range of \<open>delete_with_tracking\<close> covers text of an \<^verbatim>\<open>ins\<close>
  element, the element is replaced by at most three elements: the text before the range in an
  \<^verbatim>\<open>ins\<close> element with the attributes of the original, the covered text in a
  \<^verbatim>\<open>del\<close> element, and the text after the range in an \<^verbatim>\<open>ins\<close> element with
  the attributes of the original. The attributes of the \<^verbatim>\<open>del\<close> element are the author
  and the date of the deleting call and the identifier \<^verbatim>\<open>"0"\<close>, and nothing else: the
  covered text is nowhere else in the output, and the author, date and identifier of the insertion
  are not on it.
\<close>

theorem deletion_of_inserted_text:
  assumes ins: "localname c = ''ins''"
    and se: "s < e"
    and ov: "s < int (length (get_accepted_text (xs @ [c])))"
            "int (length (get_accepted_text xs)) < e"
  shows
    "delete_with_tracking isoformat now (xs @ [c] @ ys) s e author date =
      delete_with_tracking isoformat now xs s e author date @
      (if take (nat (s - int (length (get_accepted_text xs)))) (extract_text_from_element c) \<noteq> []
       then [rebuild_piece ''ins'' c
               (take (nat (s - int (length (get_accepted_text xs))))
                  (extract_text_from_element c))]
       else []) @
      [Element (qn_w ''del'')
         [(qn_w ''author'', author),
          (qn_w ''date'', isoformat (case date of None \<Rightarrow> now | Some d \<Rightarrow> d)),
          (qn_w ''id'', ''0'')] None
         [Element (qn_w ''r'') [] None
            [Element (qn_w ''delText'') [((XML_NS, ''space''), ''preserve'')]
               (Some (take (nat (e - int (length (get_accepted_text xs))) -
                            nat (s - int (length (get_accepted_text xs))))
                        (drop (nat (s - int (length (get_accepted_text xs))))
                           (extract_text_from_element c)))) []]]] @
      (if drop (nat (e - int (length (get_accepted_text xs)))) (extract_text_from_element c) \<noteq> []
       then [rebuild_piece ''ins'' c
               (drop (nat (e - int (length (get_accepted_text xs))))
                  (extract_text_from_element c))]
       else []) @
      mark_range_loop isoformat ys s e author (case date of None \<Rightarrow> now | Some d \<Rightarrow> d)
        (int (length (get_accepted_text (xs @ [c])))) []"
proof -
  define d where "d = (case date of None \<Rightarrow> now | Some d \<Rightarrow> d)"
  let ?cur = "int (length (get_accepted_text xs))"
  have del: "delete_with_tracking isoformat now q s e author date =
             mark_range_loop isoformat q s e author d 0 []" for q
    using se by (simp add: delete_with_tracking_def mark_range_as_deleted_def d_def)
  have live: "localname c \<in> {''r'', ''ins''}" using ins by simp
  have "\<not> (?cur + int (length (extract_text_from_element c)) \<le> s \<or> e \<le> ?cur)"
    using ov ins by (simp add: accepted_singleton)
  note m = mark_overlap [OF live this se, of isoformat author d]
  show ?thesis
    unfolding del mark_context m d_def [symmetric] deletion_element_explicit [symmetric] ins
    by simp
qed

theorem deletion_of_inserted_text_witness:
  "localname (Element (qn_w ''ins'')
       [(qn_w ''author'', ''Ann''), (qn_w ''date'', ''2024-01-01''), (qn_w ''id'', ''7'')] None
       [create_run_with_text ''abc'']) = ''ins'' \<and> (1::int) < 2 \<and>
   delete_with_tracking (\<lambda>d::string. d) ''2025-05-05''
       [Element (qn_w ''ins'')
          [(qn_w ''author'', ''Ann''), (qn_w ''date'', ''2024-01-01''), (qn_w ''id'', ''7'')] None
          [create_run_with_text ''abc'']] 1 2 ''Bob'' None =
     [Element (qn_w ''ins'')
          [(qn_w ''author'', ''Ann''), (qn_w ''date'', ''2024-01-01''), (qn_w ''id'', ''7'')] None
          [create_run_with_text ''a''],
      Element (qn_w ''del'')
        [(qn_w ''author'', ''Bob''), (qn_w ''date'', ''2025-05-05''), (qn_w ''id'', ''0'')] None
        [Element (qn_w ''r'') [] None
           [Element (qn_w ''delText'') [((XML_NS, ''space''), ''preserve'')] (Some ''b'') []]],
      Element (qn_w ''ins'')
          [(qn_w ''author'', ''Ann''), (qn_w ''date'', ''2024-01-01''), (qn_w ''id'', ''7'')] None
          [create_run_with_text ''c'']]"
proof -
  let ?c = "Element (qn_w ''ins'')
       [(qn_w ''author'', ''Ann''), (qn_w ''date'', ''2024-01-01''), (qn_w ''id'', ''7'')] None
       [create_run_with_text ''abc'']"
  have t: "extract_text_from_element ?c = ''abc''"
    by (simp add: extract_text_eq iter_tag_def create_run_with_text_def OxmlElement_def
      set_text_def set_attr_def append_child_def)
  have ins: "localname ?c = ''ins''"
    by (simp add: localname_def)
  have se: "(1::int) < 2" by simp
  have ov: "1 < int (length (get_accepted_text ([] @ [?c])))"
           "int (length (get_accepted_text [])) < 2"
    by (simp_all add: accepted_singleton ins t)
  have d: "delete_with_tracking (\<lambda>d::string. d) ''2025-05-05'' [] 1 2 ''Bob'' None = []"
    by (simp add: delete_with_tracking_def mark_range_as_deleted_def)
  have rb: "rebuild_piece ''ins'' ?c u =
       Element (qn_w ''ins'')
          [(qn_w ''author'', ''Ann''), (qn_w ''date'', ''2024-01-01''), (qn_w ''id'', ''7'')] None
          [create_run_with_text u]" for u
    by (simp add: rebuild_piece_def copy_attrib_def get_attr_def set_attr_def OxmlElement_def
        append_child_def)
  from deletion_of_inserted_text [OF ins se ov, of "\<lambda>d::string. d" "''2025-05-05''" "[]" "''Bob''" None]
  have "delete_with_tracking (\<lambda>d::string. d) ''2025-05-05'' [?c] 1 2 ''Bob'' None =
     [Element (qn_w ''ins'')
          [(qn_w ''author'', ''Ann''), (qn_w ''date'', ''2024-01-01''), (qn_w ''id'', ''7'')] None
          [create_run_with_text ''a''],
      Element (qn_w ''del'')
        [(qn_w ''author'', ''Bob''), (qn_w ''date'', ''2025-05-05''), (qn_w ''id'', ''0'')] None
        [Element (qn_w ''r'') [] None
           [Element (qn_w ''delText'') [((XML_NS, ''space''), ''preserve'')] (Some ''b'') []]],
      Element (qn_w ''ins'')
          [(qn_w ''author'', ''Ann''), (qn_w ''date'', ''2024-01-01''), (qn_w ''id'', ''7'')] None
          [create_run_with_text ''c'']]"
    unfolding d t rb by simp
  with ins se show ?thesis by (intro conjI)
qed

section \<open>The insertion loop\<close>

lemma split_and_insert_eq:
  "split_and_insert (pre @ c # post) c (length pre) new off =
     pre @
     (if slice_to (extract_text_from_element c) off \<noteq> []
      then [rebuild_piece (localname c) c (slice_to (extract_text_from_element c) off)] else []) @
     [new] @
     (if slice_from (extract_text_from_element c) off \<noteq> []
      then [rebuild_piece (localname c) c (slice_from (extract_text_from_element c) off)] else []) @
     post"
  by (simp add: split_and_insert_def Let_def remove_at_def list_insert_def)

lemma split_and_insert_single:
  "split_and_insert [c] c 0 new off =
     (if slice_to (extract_text_from_element c) off \<noteq> []
      then [rebuild_piece (localname c) c (slice_to (extract_text_from_element c) off)] else []) @
     [new] @
     (if slice_from (extract_text_from_element c) off \<noteq> []
      then [rebuild_piece (localname c) c (slice_from (extract_text_from_element c) off)] else [])"
  using split_and_insert_eq [of "[]" c "[]" new off] by simp

lemma split_and_insert_ctx:
  "split_and_insert (pre @ c # post) c (length pre) new off =
     pre @ split_and_insert [c] c 0 new off @ post"
  unfolding split_and_insert_eq split_and_insert_single by simp

lemma accepted_split_and_insert:
  "get_accepted_text (split_and_insert [c] c 0 new off) =
     slice_to (extract_text_from_element c) off @ get_accepted_text [new] @
     slice_from (extract_text_from_element c) off"
  unfolding split_and_insert_single get_accepted_text_append accepted_opt_piece ..

lemma raw_split_and_insert:
  "raw_text (split_and_insert [c] c 0 new off) =
     slice_to (extract_text_from_element c) off @ raw_text [new] @
     slice_from (extract_text_from_element c) off"
  unfolding split_and_insert_single raw_text_append accepted_opt_piece ..

lemma insert_loop_prefix:
  "insert_at_position_loop (pre @ rest) rest (length pre) new pos cur =
     pre @ insert_at_position_loop rest rest 0 new pos cur"
proof (induction rest arbitrary: pre cur)
  case Nil
  show ?case by simp
next
  case (Cons c rest)
  have step: "insert_at_position_loop (pre @ c # rest) rest (Suc (length pre)) new pos k =
        pre @ c # insert_at_position_loop rest rest 0 new pos k" for pre k
    using Cons.IH [of "pre @ [c]" k] by simp
  have step0: "insert_at_position_loop (c # rest) rest (Suc 0) new pos k =
        c # insert_at_position_loop rest rest 0 new pos k" for k
    using step [of "[]" k] by simp
  have sp: "split_and_insert (c # rest) c 0 new off = split_and_insert [c] c 0 new off @ rest" for off
    using split_and_insert_ctx [of "[]" c rest new off] by simp
  show ?case
    by (simp add: Let_def step step0 split_and_insert_ctx sp)
qed

lemma insert_loop_Cons:
  "insert_at_position_loop (c # rest) (c # rest) 0 new pos cur =
     (if localname c \<in> {''r'', ''ins''} \<and>
         cur + int (length (extract_text_from_element c)) > pos
      then split_and_insert [c] c 0 new (pos - cur) @ rest
      else c # insert_at_position_loop rest rest 0 new pos
                 (cur + int (length (get_accepted_text [c]))))"
proof -
  have step0: "insert_at_position_loop (c # rest) rest (Suc 0) new pos k =
        c # insert_at_position_loop rest rest 0 new pos k" for k
    using insert_loop_prefix [of "[c]" rest new pos k] by simp
  have sp: "split_and_insert (c # rest) c 0 new off = split_and_insert [c] c 0 new off @ rest" for off
    using split_and_insert_ctx [of "[]" c rest new off] by simp
  show ?thesis
    by (simp add: Let_def step0 sp accepted_singleton)
qed

declare insert_at_position_loop.simps(2) [simp del]

lemma insert_loop_hit:
  assumes "localname c \<in> {''r'', ''ins''}"
    and "cur + int (length (extract_text_from_element c)) > pos"
  shows "insert_at_position_loop (c # rest) (c # rest) 0 new pos cur =
         split_and_insert [c] c 0 new (pos - cur) @ rest"
  unfolding insert_loop_Cons using assms by (intro if_P conjI)

lemma insert_loop_miss:
  assumes "\<not> (localname c \<in> {''r'', ''ins''} \<and>
              cur + int (length (extract_text_from_element c)) > pos)"
  shows "insert_at_position_loop (c # rest) (c # rest) 0 new pos cur =
         c # insert_at_position_loop rest rest 0 new pos
               (cur + int (length (get_accepted_text [c])))"
  unfolding insert_loop_Cons using assms by (rule if_not_P)

lemma accepted_Cons_split:
  "get_accepted_text (c # ys) = get_accepted_text [c] @ get_accepted_text ys"
  using get_accepted_text_append [of "[c]" ys] by simp

lemma raw_Cons_split:
  "raw_text (c # ys) = raw_text [c] @ raw_text ys"
  using raw_text_append [of "[c]" ys] by simp

lemma insert_loop_past_end:
  assumes "cur + int (length (get_accepted_text xs)) \<le> pos"
  shows "insert_at_position_loop xs xs 0 new pos cur = xs @ [new]"
  using assms
proof (induction xs arbitrary: cur)
  case Nil
  show ?case by simp
next
  case (Cons c rest)
  have miss: "\<not> (localname c \<in> {''r'', ''ins''} \<and>
         cur + int (length (extract_text_from_element c)) > pos)"
    using Cons.prems by (auto simp: get_accepted_text_Cons)
  have "cur + int (length (get_accepted_text [c])) + int (length (get_accepted_text rest)) \<le> pos"
    using Cons.prems unfolding accepted_Cons_split [of c rest] by simp
  then have "insert_at_position_loop rest rest 0 new pos
               (cur + int (length (get_accepted_text [c]))) = rest @ [new]"
    by (rule Cons.IH)
  then show ?case
    unfolding insert_loop_miss [OF miss] by simp
qed

lemma insert_loop_text_empty:
  assumes "get_accepted_text [new] = []"
  shows "get_accepted_text (insert_at_position_loop xs xs 0 new pos cur) = get_accepted_text xs"
proof (induction xs arbitrary: cur)
  case Nil
  show ?case using assms by simp
next
  case (Cons c rest)
  show ?case
  proof (cases "localname c \<in> {''r'', ''ins''} \<and>
         cur + int (length (extract_text_from_element c)) > pos")
    case True
    then have T: "get_accepted_text [c] = extract_text_from_element c"
      by (simp add: accepted_singleton)
    from True have "insert_at_position_loop (c # rest) (c # rest) 0 new pos cur =
         split_and_insert [c] c 0 new (pos - cur) @ rest"
      by (intro insert_loop_hit) simp_all
    then show ?thesis
      by (simp add: accepted_split_and_insert assms accepted_Cons_split [of c rest] T)
  next
    case False
    show ?thesis
      unfolding insert_loop_miss [OF False]
        accepted_Cons_split [of c "insert_at_position_loop _ _ _ _ _ _"]
        accepted_Cons_split [of c rest] Cons.IH ..
  qed
qed

lemma insert_loop_raw_empty:
  assumes "raw_text [new] = []"
  shows "raw_text (insert_at_position_loop xs xs 0 new pos cur) = raw_text xs"
proof (induction xs arbitrary: cur)
  case Nil
  show ?case using assms by simp
next
  case (Cons c rest)
  show ?case
  proof (cases "localname c \<in> {''r'', ''ins''} \<and>
         cur + int (length (extract_text_from_element c)) > pos")
    case True
    then have T: "raw_text [c] = extract_text_from_element c"
      by (auto simp add: raw_singleton)
    from True have "insert_at_position_loop (c # rest) (c # rest) 0 new pos cur =
         split_and_insert [c] c 0 new (pos - cur) @ rest"
      by (intro insert_loop_hit) simp_all
    then show ?thesis
      by (simp add: raw_split_and_insert assms raw_Cons_split [of c rest] T)
  next
    case False
    show ?thesis
      unfolding insert_loop_miss [OF False]
        raw_Cons_split [of c "insert_at_position_loop _ _ _ _ _ _"]
        raw_Cons_split [of c rest] Cons.IH ..
  qed
qed

lemma insert_loop_accepted:
  assumes "cur \<le> pos"
  shows "get_accepted_text (insert_at_position_loop xs xs 0 new pos cur) =
         take (nat (pos - cur)) (get_accepted_text xs) @ get_accepted_text [new] @
         drop (nat (pos - cur)) (get_accepted_text xs)"
  using assms
proof (induction xs arbitrary: cur)
  case Nil
  show ?case by simp
next
  case (Cons c rest)
  show ?case
  proof (cases "localname c \<in> {''r'', ''ins''} \<and>
         cur + int (length (extract_text_from_element c)) > pos")
    case True
    then have T: "get_accepted_text [c] = extract_text_from_element c"
      by (simp add: accepted_singleton)
    have lt: "nat (pos - cur) \<le> length (extract_text_from_element c)"
      using True Cons.prems by linarith
    have "0 \<le> pos - cur" using Cons.prems by simp
    then have sl: "slice_to (extract_text_from_element c) (pos - cur) =
                   take (nat (pos - cur)) (extract_text_from_element c)"
      "slice_from (extract_text_from_element c) (pos - cur) =
                   drop (nat (pos - cur)) (extract_text_from_element c)"
      by (simp_all add: slice_nonneg)
    from True have "insert_at_position_loop (c # rest) (c # rest) 0 new pos cur =
         split_and_insert [c] c 0 new (pos - cur) @ rest"
      by (intro insert_loop_hit) simp_all
    then show ?thesis
      using lt by (simp add: accepted_split_and_insert accepted_Cons_split [of c rest] T sl)
  next
    case False
    let ?T = "get_accepted_text [c]"
    have le: "cur + int (length ?T) \<le> pos"
      using False Cons.prems by (auto simp: accepted_singleton)
    then have n: "nat (pos - (cur + int (length ?T))) = nat (pos - cur) - length ?T"
      "length ?T \<le> nat (pos - cur)"
      by linarith+
    have "get_accepted_text (insert_at_position_loop (c # rest) (c # rest) 0 new pos cur) =
          ?T @ take (nat (pos - cur) - length ?T) (get_accepted_text rest) @
          get_accepted_text [new] @
          drop (nat (pos - cur) - length ?T) (get_accepted_text rest)"
      unfolding insert_loop_miss [OF False]
        accepted_Cons_split [of c "insert_at_position_loop _ _ _ _ _ _"]
        Cons.IH [OF le] n(1) ..
    then show ?thesis
      using n(2) by (simp add: accepted_Cons_split [of c rest])
  qed
qed

lemma insert_with_tracking_eq:
  "insert_with_tracking isoformat now p text position author date =
     (if position = - 1
      then p @ [Element (qn_w ''ins'')
                  [(qn_w ''author'', author),
                   (qn_w ''date'', isoformat (case date of None \<Rightarrow> now | Some d \<Rightarrow> d)),
                   (qn_w ''id'', ''0'')] None [create_run_with_text text]]
      else insert_at_position_loop p p 0
             (Element (qn_w ''ins'')
                  [(qn_w ''author'', author),
                   (qn_w ''date'', isoformat (case date of None \<Rightarrow> now | Some d \<Rightarrow> d)),
                   (qn_w ''id'', ''0'')] None [create_run_with_text text]) position 0)"
  by (simp add: insert_with_tracking_def insert_at_position_def Let_def OxmlElement_def
      set_attr_def append_child_def)

lemma extract_ins_elem [simp]:
  "extract_text_from_element (Element (qn_w ''ins'') as None [create_run_with_text text]) = text"
  using extract_wrap [of "Element (qn_w ''ins'') as None []" "''ins''" "create_run_with_text text"]
  by (simp add: append_child_def)

lemma localname_ins_elem [simp]:
  "localname (Element (qn_w l) as x cs) = l"
  by (simp add: localname_def)

lemma accepted_ins_elem [simp]:
  "get_accepted_text [Element (qn_w ''ins'') as None [create_run_with_text text]] = text"
  by (simp add: accepted_singleton)

lemma raw_ins_elem [simp]:
  "raw_text [Element (qn_w ''ins'') as None [create_run_with_text text]] = text"
  by (simp add: raw_singleton)

lemma insert_loop_member:
  "new \<in> set (insert_at_position_loop xs xs 0 new pos cur)"
proof (induction xs arbitrary: cur)
  case Nil
  show ?case by simp
next
  case (Cons c rest)
  show ?case
  proof (cases "localname c \<in> {''r'', ''ins''} \<and>
         cur + int (length (extract_text_from_element c)) > pos")
    case True
    then have "insert_at_position_loop (c # rest) (c # rest) 0 new pos cur =
         split_and_insert [c] c 0 new (pos - cur) @ rest"
      by (intro insert_loop_hit) simp_all
    then show ?thesis by (simp add: split_and_insert_single)
  next
    case False
    show ?thesis
      unfolding insert_loop_miss [OF False] using Cons.IH by simp
  qed
qed

lemma insert_loop_skip:
  assumes "cur + int (length (get_accepted_text xs)) \<le> pos"
  shows "insert_at_position_loop (xs @ zs) (xs @ zs) 0 new pos cur =
         xs @ insert_at_position_loop zs zs 0 new pos (cur + int (length (get_accepted_text xs)))"
  using assms
proof (induction xs arbitrary: cur)
  case Nil
  show ?case by simp
next
  case (Cons c rest)
  have miss: "\<not> (localname c \<in> {''r'', ''ins''} \<and>
         cur + int (length (extract_text_from_element c)) > pos)"
    using Cons.prems by (auto simp: get_accepted_text_Cons)
  have le: "cur + int (length (get_accepted_text [c])) + int (length (get_accepted_text rest)) \<le> pos"
    using Cons.prems unfolding accepted_Cons_split [of c rest] by simp
  have "insert_at_position_loop ((c # rest) @ zs) ((c # rest) @ zs) 0 new pos cur =
        c # insert_at_position_loop (rest @ zs) (rest @ zs) 0 new pos
              (cur + int (length (get_accepted_text [c])))"
    using insert_loop_miss [OF miss, of "rest @ zs" new] by simp
  also have "\<dots> = c # rest @ insert_at_position_loop zs zs 0 new pos
       (cur + int (length (get_accepted_text [c])) + int (length (get_accepted_text rest)))"
    by (simp only: Cons.IH [OF le])
  finally show ?case
    by (simp add: accepted_Cons_split [of c rest] add.assoc)
qed

lemma accepted_all_del:
  "\<forall>d \<in> set ds. localname d = ''del'' \<Longrightarrow> get_accepted_text ds = []"
  by (induction ds) (simp_all add: get_accepted_text_Cons)

section \<open>Where an insertion appends\<close>

text \<open>
  Claim C2 says that every negative offset, and every offset at or beyond the length of the accepted
  text, appends the new \<^verbatim>\<open>ins\<close> element at the end without splitting anything. The
  function tests \<^verbatim>\<open>position == -1\<close> only: any other negative offset goes to the locating
  walk, which stops at the first \<^verbatim>\<open>r\<close> or \<^verbatim>\<open>ins\<close> child and splits it with a
  negative slice bound, that is, counted from the end of that child's text. At offset \<open>-3\<close> the run
  \<^verbatim>\<open>Hello world\<close> is split before \<^verbatim>\<open>rld\<close>.
\<close>

theorem insert_negative_offset_counterexample:
  "insert_with_tracking id ''t'' [create_run_with_text ''Hello world''] ''X'' (- 3) ''Ann'' None =
     [create_run_with_text ''Hello wo'',
      Element (qn_w ''ins'')
        [(qn_w ''author'', ''Ann''), (qn_w ''date'', ''t''), (qn_w ''id'', ''0'')] None
        [create_run_with_text ''X''],
      create_run_with_text ''rld''] \<and>
   get_accepted_text
     (insert_with_tracking id ''t'' [create_run_with_text ''Hello world''] ''X'' (- 3) ''Ann'' None)
     \<noteq> get_accepted_text [create_run_with_text ''Hello world''] @ ''X''"
  by code_simp

text \<open>
  Claim C2 as amended: for the offset \<open>-1\<close> and for every offset at or beyond the length of the
  accepted text, the paragraph afterwards is the old one followed by the new \<^verbatim>\<open>ins\<close>
  element, and its accepted text is the old accepted text followed by the inserted text.
\<close>

theorem insert_append_at_end:
  assumes "position = - 1 \<or> int (length (get_accepted_text p)) \<le> position"
  shows "insert_with_tracking isoformat now p text position author date =
           p @ [Element (qn_w ''ins'')
                  [(qn_w ''author'', author),
                   (qn_w ''date'', isoformat (case date of None \<Rightarrow> now | Some d \<Rightarrow> d)),
                   (qn_w ''id'', ''0'')] None [create_run_with_text text]] \<and>
         get_accepted_text (insert_with_tracking isoformat now p text position author date) =
           get_accepted_text p @ text"
proof -
  let ?new = "Element (qn_w ''ins'')
                  [(qn_w ''author'', author),
                   (qn_w ''date'', isoformat (case date of None \<Rightarrow> now | Some d \<Rightarrow> d)),
                   (qn_w ''id'', ''0'')] None [create_run_with_text text]"
  have "insert_with_tracking isoformat now p text position author date = p @ [?new]"
  proof (cases "position = - 1")
    case True
    then show ?thesis by (simp add: insert_with_tracking_eq)
  next
    case False
    with assms have "0 + int (length (get_accepted_text p)) \<le> position" by simp
    then have "insert_at_position_loop p p 0 ?new position 0 = p @ [?new]"
      by (rule insert_loop_past_end)
    with False show ?thesis by (simp add: insert_with_tracking_eq)
  qed
  then show ?thesis by simp
qed

theorem insert_append_at_end_witness:
  "((- 1 :: int) = - 1 \<or> int (length (get_accepted_text [create_run_with_text ''Hello world''])) \<le> - 1) \<and>
   insert_with_tracking (\<lambda>d::string. d) ''t'' [create_run_with_text ''Hello world''] '' today''
     (- 1) ''Ann'' None =
     [create_run_with_text ''Hello world''] @
     [Element (qn_w ''ins'')
        [(qn_w ''author'', ''Ann''), (qn_w ''date'', ''t''), (qn_w ''id'', ''0'')] None
        [create_run_with_text '' today'']] \<and>
   get_accepted_text
     (insert_with_tracking (\<lambda>d::string. d) ''t'' [create_run_with_text ''Hello world'']
        '' today'' (- 1) ''Ann'' None) = ''Hello world today''"
  using insert_append_at_end [of "- 1" "[create_run_with_text ''Hello world'']"
      "\<lambda>d::string. d" "''t''" "'' today''" "''Ann''" None]
  by (simp add: get_accepted_text_Cons)

section \<open>Inserting the empty text\<close>

text \<open>
  Claim C3 says that inserting the empty text returns the list of children unchanged. The function
  has no test for the empty text: it builds an \<^verbatim>\<open>ins\<close> element whose text is empty and
  puts it into the paragraph like any other.
\<close>

theorem insert_empty_text_counterexample:
  "insert_with_tracking id ''t'' [create_run_with_text ''a''] [] (- 1) ''Ann'' None =
     [create_run_with_text ''a'',
      Element (qn_w ''ins'')
        [(qn_w ''author'', ''Ann''), (qn_w ''date'', ''t''), (qn_w ''id'', ''0'')] None
        [create_run_with_text []]] \<and>
   insert_with_tracking id ''t'' [create_run_with_text ''a''] [] (- 1) ''Ann'' None \<noteq>
     [create_run_with_text ''a''] \<and>
   insert_with_tracking id ''t'' [create_run_with_text ''ab''] [] 1 ''Ann'' None =
     [create_run_with_text ''a'',
      Element (qn_w ''ins'')
        [(qn_w ''author'', ''Ann''), (qn_w ''date'', ''t''), (qn_w ''id'', ''0'')] None
        [create_run_with_text []],
      create_run_with_text ''b'']"
  by code_simp

text \<open>
  Claim C3 as amended: at every offset, inserting the empty text leaves the accepted text and the
  raw text unchanged, and the paragraph afterwards holds an \<^verbatim>\<open>ins\<close> element with the
  empty text, the author and the date of the call; at the offset \<open>-1\<close> the paragraph afterwards
  is the old one followed by that element.
\<close>

theorem insert_empty_text:
  "get_accepted_text (insert_with_tracking isoformat now p [] position author date) =
     get_accepted_text p \<and>
   raw_text (insert_with_tracking isoformat now p [] position author date) = raw_text p \<and>
   Element (qn_w ''ins'')
     [(qn_w ''author'', author),
      (qn_w ''date'', isoformat (case date of None \<Rightarrow> now | Some d \<Rightarrow> d)),
      (qn_w ''id'', ''0'')] None [create_run_with_text []]
     \<in> set (insert_with_tracking isoformat now p [] position author date) \<and>
   insert_with_tracking isoformat now p [] (- 1) author date =
     p @ [Element (qn_w ''ins'')
            [(qn_w ''author'', author),
             (qn_w ''date'', isoformat (case date of None \<Rightarrow> now | Some d \<Rightarrow> d)),
             (qn_w ''id'', ''0'')] None [create_run_with_text []]]"
  by (simp add: insert_with_tracking_eq insert_loop_text_empty insert_loop_raw_empty
        insert_loop_member)

theorem insert_empty_text_witness:
  "get_accepted_text (insert_with_tracking (\<lambda>d::string. d) ''t'' [create_run_with_text ''ab'']
      [] 1 ''Ann'' None) = ''ab'' \<and>
   raw_text (insert_with_tracking (\<lambda>d::string. d) ''t'' [create_run_with_text ''ab'']
      [] 1 ''Ann'' None) = ''ab'' \<and>
   Element (qn_w ''ins'')
     [(qn_w ''author'', ''Ann''), (qn_w ''date'', ''t''), (qn_w ''id'', ''0'')] None
     [create_run_with_text []]
     \<in> set (insert_with_tracking (\<lambda>d::string. d) ''t'' [create_run_with_text ''ab'']
      [] 1 ''Ann'' None) \<and>
   insert_with_tracking (\<lambda>d::string. d) ''t'' [create_run_with_text ''ab''] [] (- 1) ''Ann'' None =
     [create_run_with_text ''ab'',
      Element (qn_w ''ins'')
        [(qn_w ''author'', ''Ann''), (qn_w ''date'', ''t''), (qn_w ''id'', ''0'')] None
        [create_run_with_text []]]"
  using insert_empty_text [of "\<lambda>d::string. d" "''t''" "[create_run_with_text ''ab'']" 1 "''Ann''" None]
  by (simp add: accepted_singleton raw_singleton)

section \<open>Inserting and deleting again\<close>

text \<open>
  Claim C8. For an offset \<open>pos\<close> with \<open>0 \<le> pos\<close> and \<open>pos\<close> at most the length of the accepted
  text, inserting a text \<open>t\<close> at \<open>pos\<close> and then deleting the range from \<open>pos\<close> to
  \<open>pos + len(t)\<close> gives back the accepted text of the paragraph.
\<close>

theorem insert_delete_roundtrip:
  assumes "0 \<le> pos" "pos \<le> int (length (get_accepted_text p))"
  shows "get_accepted_text
           (delete_with_tracking isoformat2 now2
              (insert_with_tracking isoformat1 now1 p t pos author1 date1)
              pos (pos + int (length t)) author2 date2) =
         get_accepted_text p"
proof -
  let ?A = "get_accepted_text p"
  let ?q = "insert_with_tracking isoformat1 now1 p t pos author1 date1"
  have "pos \<noteq> - 1" using assms by simp
  then have B: "get_accepted_text ?q = take (nat pos) ?A @ t @ drop (nat pos) ?A"
    using insert_loop_accepted [of 0 pos p] assms by (simp add: insert_with_tracking_eq)
  show ?thesis
  proof (cases "t = []")
    case True
    with B show ?thesis by (simp add: delete_with_tracking_def)
  next
    case False
    then have se: "pos < pos + int (length t)" by simp
    have len: "length (take (nat pos) ?A) = nat pos" using assms by simp
    have n: "nat (pos + int (length t)) = nat pos + length t" using assms by simp
    have "get_accepted_text
           (delete_with_tracking isoformat2 now2 ?q pos (pos + int (length t)) author2 date2) =
          take (nat pos) (get_accepted_text ?q) @
          drop (nat (pos + int (length t))) (get_accepted_text ?q)"
      using se accepted_mark_loop [OF se, of isoformat2 ?q author2 _ 0]
      by (simp add: delete_with_tracking_def mark_range_as_deleted_def Let_def)
    also have "\<dots> = take (nat pos) ?A @ drop (nat pos) ?A"
      unfolding B n using len by simp
    finally show ?thesis by simp
  qed
qed

theorem insert_delete_roundtrip_witness:
  "(0::int) \<le> 5 \<and> 5 \<le> int (length (get_accepted_text [create_run_with_text ''Hello world''])) \<and>
   get_accepted_text
     (delete_with_tracking (\<lambda>d::string. d) ''t2''
        (insert_with_tracking (\<lambda>d::string. d) ''t1'' [create_run_with_text ''Hello world'']
           '' big'' 5 ''Ann'' None)
        5 (5 + int (length '' big'')) ''Bob'' None) = ''Hello world''"
  using insert_delete_roundtrip [of 5 "[create_run_with_text ''Hello world'']"
      "\<lambda>d::string. d" "''t2''" "\<lambda>d::string. d" "''t1''" "'' big''" "''Ann''" None "''Bob''" None]
  by (simp add: accepted_singleton)

section \<open>Inserting next to deleted segments\<close>

text \<open>
  Claim C10 says that at an offset on the boundary between two segments that are not deleted, with
  \<^verbatim>\<open>del\<close> elements between them, the new element is put after the \<^verbatim>\<open>del\<close>
  elements, immediately before the following \<^verbatim>\<open>r\<close> or \<^verbatim>\<open>ins\<close> element. The
  walk stops at a child only when its text reaches beyond the offset
  (\<^verbatim>\<open>current_pos + text_len > position\<close>), so it also passes a following element whose text
  is empty: the new element is put after that one.
\<close>

theorem insert_at_boundary_counterexample:
  "insert_with_tracking id ''t''
     [create_run_with_text ''a'', create_deletion_element id ''x'' ''Old'' ''t0'',
      create_run_with_text [], create_run_with_text ''b''] ''N'' 1 ''Ann'' None =
     [create_run_with_text ''a'', create_deletion_element id ''x'' ''Old'' ''t0'',
      create_run_with_text [],
      Element (qn_w ''ins'')
        [(qn_w ''author'', ''Ann''), (qn_w ''date'', ''t''), (qn_w ''id'', ''0'')] None
        [create_run_with_text ''N''],
      create_run_with_text ''b'']"
  by code_simp

text \<open>
  Claim C10 as amended: when the following \<^verbatim>\<open>r\<close> or \<^verbatim>\<open>ins\<close> element has a text
  that is not empty, the new element is put after the \<^verbatim>\<open>del\<close> elements and immediately
  before that element, which is rebuilt with its whole text.
\<close>

theorem insert_after_deleted_segments:
  assumes a: "localname a \<in> {''r'', ''ins''}"
    and ds: "ds \<noteq> []" "\<forall>d \<in> set ds. localname d = ''del''"
    and b: "localname b \<in> {''r'', ''ins''}" "extract_text_from_element b \<noteq> []"
    and pos: "position = int (length (get_accepted_text (xs @ [a])))"
  shows "insert_with_tracking isoformat now (xs @ [a] @ ds @ [b] @ ys) text position author date =
         xs @ [a] @ ds @
         [Element (qn_w ''ins'')
            [(qn_w ''author'', author),
             (qn_w ''date'', isoformat (case date of None \<Rightarrow> now | Some d \<Rightarrow> d)),
             (qn_w ''id'', ''0'')] None [create_run_with_text text],
          rebuild_piece (localname b) b (extract_text_from_element b)] @ ys"
proof -
  let ?new = "Element (qn_w ''ins'')
            [(qn_w ''author'', author),
             (qn_w ''date'', isoformat (case date of None \<Rightarrow> now | Some d \<Rightarrow> d)),
             (qn_w ''id'', ''0'')] None [create_run_with_text text]"
  let ?pre = "xs @ [a] @ ds"
  have acc: "get_accepted_text ?pre = get_accepted_text (xs @ [a])"
    using accepted_all_del [OF ds(2)] by (simp add: accepted_Cons_split [of a ds])
  have le: "0 + int (length (get_accepted_text ?pre)) \<le> position"
    unfolding acc pos by simp
  have hit: "position < position + int (length (extract_text_from_element b))"
    using b(2) by simp
  have "insert_at_position_loop (?pre @ b # ys) (?pre @ b # ys) 0 ?new position 0 =
        ?pre @ insert_at_position_loop (b # ys) (b # ys) 0 ?new position
                 (0 + int (length (get_accepted_text ?pre)))"
    by (rule insert_loop_skip [OF le])
  also have "0 + int (length (get_accepted_text ?pre)) = position"
    unfolding acc pos by simp
  also have "insert_at_position_loop (b # ys) (b # ys) 0 ?new position position =
        split_and_insert [b] b 0 ?new (position - position) @ ys"
    using b(1) hit by (rule insert_loop_hit)
  also have "split_and_insert [b] b 0 ?new (position - position) =
        [?new, rebuild_piece (localname b) b (extract_text_from_element b)]"
    using b(2) by (simp add: split_and_insert_single slice_nonneg)
  finally have "insert_at_position_loop (?pre @ b # ys) (?pre @ b # ys) 0 ?new position 0 =
        ?pre @ [?new, rebuild_piece (localname b) b (extract_text_from_element b)] @ ys" .
  moreover have "position \<noteq> - 1" unfolding pos by simp
  ultimately show ?thesis
    by (simp add: insert_with_tracking_eq)
qed

theorem insert_after_deleted_segments_witness:
  "localname (create_run_with_text ''a'') \<in> {''r'', ''ins''} \<and>
   [create_deletion_element (\<lambda>d::string. d) ''x'' ''Old'' ''t0''] \<noteq> [] \<and>
   localname (create_deletion_element (\<lambda>d::string. d) ''x'' ''Old'' ''t0'') = ''del'' \<and>
   localname (create_run_with_text ''b'') \<in> {''r'', ''ins''} \<and>
   extract_text_from_element (create_run_with_text ''b'') \<noteq> [] \<and>
   (1::int) = int (length (get_accepted_text ([] @ [create_run_with_text ''a'']))) \<and>
   insert_with_tracking (\<lambda>d::string. d) ''t''
     [create_run_with_text ''a'', create_deletion_element (\<lambda>d::string. d) ''x'' ''Old'' ''t0'',
      create_run_with_text ''b''] ''N'' 1 ''Ann'' None =
     [create_run_with_text ''a'', create_deletion_element (\<lambda>d::string. d) ''x'' ''Old'' ''t0'',
      Element (qn_w ''ins'')
        [(qn_w ''author'', ''Ann''), (qn_w ''date'', ''t''), (qn_w ''id'', ''0'')] None
        [create_run_with_text ''N''],
      create_run_with_text ''b'']"
proof -
  let ?a = "create_run_with_text ''a''"
  let ?d = "create_deletion_element (\<lambda>d::string. d) ''x'' ''Old'' ''t0''"
  let ?b = "create_run_with_text ''b''"
  have a: "localname ?a \<in> {''r'', ''ins''}" by simp
  have ds: "[?d] \<noteq> []" "\<forall>d \<in> set [?d]. localname d = ''del''" by simp_all
  have b: "localname ?b \<in> {''r'', ''ins''}" "extract_text_from_element ?b \<noteq> []" by simp_all
  have pos: "(1::int) = int (length (get_accepted_text ([] @ [?a])))"
    by (simp add: accepted_singleton)
  have rb: "rebuild_piece (localname ?b) ?b (extract_text_from_element ?b) = ?b"
    by (simp add: rebuild_piece_def)
  from insert_after_deleted_segments [OF a ds b pos, of "\<lambda>d::string. d" "''t''" "[]" "''N''" "''Ann''" None]
  have "insert_with_tracking (\<lambda>d::string. d) ''t'' [?a, ?d, ?b] ''N'' 1 ''Ann'' None =
     [?a, ?d,
      Element (qn_w ''ins'')
        [(qn_w ''author'', ''Ann''), (qn_w ''date'', ''t''), (qn_w ''id'', ''0'')] None
        [create_run_with_text ''N''], ?b]"
    unfolding rb by simp
  moreover have "localname ?d = ''del''" by simp
  ultimately show ?thesis using a ds(1) b pos by (intro conjI)
qed

section \<open>Replacement is a deletion followed by an insertion\<close>

lemma str_find_lower: "- 1 \<le> str_find s sub"
  by (induction s) (auto simp: Let_def)

lemma str_find_none: "str_find s sub = - 1 \<longleftrightarrow> \<not> sublist sub s"
proof (induction s)
  case Nil
  show ?case by simp
next
  case (Cons c s)
  have "str_find s sub + 1 \<noteq> - 1"
    using str_find_lower [of s sub] by simp
  with Cons show ?case
    by (auto simp: Let_def sublist_Cons_right)
qed

lemma str_find_first:
  assumes "str_find s sub \<noteq> - 1"
  shows "0 \<le> str_find s sub \<and>
         prefix sub (drop (nat (str_find s sub)) s) \<and>
         (\<forall>k < nat (str_find s sub). \<not> prefix sub (drop k s))"
  using assms
proof (induction s)
  case Nil
  then show ?case by (simp split: if_splits)
next
  case (Cons c s)
  show ?case
  proof (cases "prefix sub (c # s)")
    case True
    then show ?thesis by simp
  next
    case False
    then have r: "str_find s sub \<noteq> - 1" and eq: "str_find (c # s) sub = str_find s sub + 1"
      using Cons.prems by (auto simp: Let_def split: if_splits)
    from Cons.IH [OF r] have ih: "0 \<le> str_find s sub"
      "prefix sub (drop (nat (str_find s sub)) s)"
      "\<forall>k < nat (str_find s sub). \<not> prefix sub (drop k s)"
      by simp_all
    have n: "nat (str_find s sub + 1) = Suc (nat (str_find s sub))"
      using ih(1) by simp
    have "\<not> prefix sub (drop k (c # s))" if "k < Suc (nat (str_find s sub))" for k
      using that False ih(3) by (cases k) simp_all
    then show ?thesis
      unfolding eq n using ih(1) ih(2) by simp
  qed
qed

lemma prefix_drop_length:
  assumes "prefix sub (drop n s)"
  shows "n + length sub \<le> length s \<or> sub = []"
proof -
  from assms have "length sub \<le> length (drop n s)" by (rule prefix_length_le)
  then have le: "length sub \<le> length s - n" by simp
  show ?thesis
  proof (cases "sub = []")
    case True
    then show ?thesis by simp
  next
    case False
    then have "0 < length sub" by simp
    with le show ?thesis by arith
  qed
qed

lemma mark_single_del_elems:
  assumes "x \<in> set (mark_range_loop isoformat [c] s e a d cur [])" "localname x = ''del''"
  shows "x = c \<or> (\<exists>t. x = create_deletion_element isoformat t a d)"
  using assms
  by (auto simp: mark_single split_for_deletion_eq split: if_splits)

lemma mark_loop_del_elems:
  assumes "x \<in> set (mark_range_loop isoformat xs s e a d cur [])" "localname x = ''del''"
  shows "x \<in> set xs \<or> (\<exists>t. x = create_deletion_element isoformat t a d)"
  using assms
proof (induction xs arbitrary: cur)
  case Nil
  then show ?case by simp
next
  case (Cons c rest)
  from Cons.prems(1)
  consider "x \<in> set (mark_range_loop isoformat [c] s e a d cur [])"
    | "x \<in> set (mark_range_loop isoformat rest s e a d
                   (cur + int (length (get_accepted_text [c]))) [])"
    unfolding mark_range_loop_Cons [of isoformat c rest] by auto
  then show ?case
  proof cases
    case 1
    from mark_single_del_elems [OF 1 Cons.prems(2)] show ?thesis by auto
  next
    case 2
    from Cons.IH [OF 2 Cons.prems(2)] show ?thesis by auto
  qed
qed

lemma insert_loop_del_elems:
  assumes "x \<in> set (insert_at_position_loop xs xs 0 new pos cur)" "localname x = ''del''"
  shows "x \<in> set xs \<or> x = new"
  using assms
proof (induction xs arbitrary: cur)
  case Nil
  then show ?case by simp
next
  case (Cons c rest)
  show ?case
  proof (cases "localname c \<in> {''r'', ''ins''} \<and>
         cur + int (length (extract_text_from_element c)) > pos")
    case True
    then have "insert_at_position_loop (c # rest) (c # rest) 0 new pos cur =
         split_and_insert [c] c 0 new (pos - cur) @ rest"
      by (intro insert_loop_hit) simp_all
    with Cons.prems show ?thesis
      by (auto simp: split_and_insert_single split: if_splits)
  next
    case False
    from Cons.prems(1) have "x = c \<or>
      x \<in> set (insert_at_position_loop rest rest 0 new pos
                  (cur + int (length (get_accepted_text [c]))))"
      unfolding insert_loop_miss [OF False] by simp
    then show ?thesis
      using Cons.IH [OF _ Cons.prems(2)] by auto
  qed
qed

lemma insert_loop_keeps_del:
  assumes "x \<in> set xs" "localname x = ''del''"
  shows "x \<in> set (insert_at_position_loop xs xs 0 new pos cur)"
  using assms
proof (induction xs arbitrary: cur)
  case Nil
  then show ?case by simp
next
  case (Cons c rest)
  show ?case
  proof (cases "localname c \<in> {''r'', ''ins''} \<and>
         cur + int (length (extract_text_from_element c)) > pos")
    case True
    then have eq: "insert_at_position_loop (c # rest) (c # rest) 0 new pos cur =
         split_and_insert [c] c 0 new (pos - cur) @ rest"
      by (intro insert_loop_hit) simp_all
    from True Cons.prems have "x \<noteq> c" by auto
    with Cons.prems(1) have "x \<in> set rest" by simp
    then show ?thesis unfolding eq by simp
  next
    case False
    show ?thesis
      unfolding insert_loop_miss [OF False]
      using Cons.prems Cons.IH by auto
  qed
qed

lemma mark_loop_creates_del:
  assumes "s < e"
    and "max s cur < min e (cur + int (length (get_accepted_text xs)))"
  shows "\<exists>t. t \<noteq> [] \<and>
           create_deletion_element isoformat t a d \<in>
             set (mark_range_loop isoformat xs s e a d cur [])"
  using assms(2)
proof (induction xs arbitrary: cur)
  case Nil
  then show ?case by simp
next
  case (Cons c rest)
  let ?T = "get_accepted_text [c]"
  have A: "get_accepted_text (c # rest) = ?T @ get_accepted_text rest"
    by (rule accepted_Cons_split)
  show ?case
  proof (cases "max s cur < min e (cur + int (length ?T))")
    case True
    then have live: "localname c \<in> {''r'', ''ins''}"
      by (auto simp: accepted_singleton split: if_splits)
    then have T: "?T = extract_text_from_element c"
      by (simp add: accepted_singleton)
    have ov: "\<not> (cur + int (length (extract_text_from_element c)) \<le> s \<or> e \<le> cur)"
      using True unfolding T by auto
    let ?m = "take (nat (e - cur) - nat (s - cur))
                (drop (nat (s - cur)) (extract_text_from_element c))"
    have "nat (s - cur) < length (extract_text_from_element c)" "nat (s - cur) < nat (e - cur)"
      using True assms(1) unfolding T by linarith+
    then have "0 < length (extract_text_from_element c) - nat (s - cur)"
      "0 < nat (e - cur) - nat (s - cur)"
      by linarith+
    moreover have "length ?m = min (length (extract_text_from_element c) - nat (s - cur))
                                  (nat (e - cur) - nat (s - cur))"
      by (simp only: length_take length_drop)
    ultimately have "0 < length ?m"
      by (simp only: min_less_iff_conj)
    then have ne: "?m \<noteq> []"
      by (intro notI) (simp only: list.size less_irrefl)
    have "create_deletion_element isoformat ?m a d \<in>
            set (mark_range_loop isoformat [c] s e a d cur [])"
      unfolding mark_overlap [OF live ov assms(1)] by simp
    then have "create_deletion_element isoformat ?m a d \<in>
            set (mark_range_loop isoformat (c # rest) s e a d cur [])"
      unfolding mark_range_loop_Cons [of isoformat c rest] by simp
    with ne show ?thesis by blast
  next
    case False
    with Cons.prems have "max s (cur + int (length ?T)) <
        min e (cur + int (length ?T) + int (length (get_accepted_text rest)))"
      unfolding A by auto
    from Cons.IH [OF this] obtain t where "t \<noteq> []"
      "create_deletion_element isoformat t a d \<in>
         set (mark_range_loop isoformat rest s e a d (cur + int (length ?T)) [])"
      by blast
    then show ?thesis
      unfolding mark_range_loop_Cons [of isoformat c rest] by auto
  qed
qed

lemma str_find_upper: "str_find s sub \<le> int (length s)"
  by (induction s) (auto simp: Let_def)

lemma delete_with_tracking_clock:
  "delete_with_tracking isoformat now1 p s e a (Some d) =
   delete_with_tracking isoformat now2 p s e a (Some d)"
  by (simp add: delete_with_tracking_def)

lemma insert_with_tracking_clock:
  "insert_with_tracking isoformat now1 p t pos a (Some d) =
   insert_with_tracking isoformat now2 p t pos a (Some d)"
  by (simp add: insert_with_tracking_eq)

lemma replace_found:
  assumes "str_find (get_accepted_text p) old_text \<noteq> - 1"
  shows "replace_with_tracking isoformat clock p old_text new_text author date =
     (insert_with_tracking isoformat now2
        (delete_with_tracking isoformat now1 p (str_find (get_accepted_text p) old_text)
           (str_find (get_accepted_text p) old_text + int (length old_text)) author
           (Some (case date of None \<Rightarrow> clock 0 | Some d \<Rightarrow> d)))
        new_text (str_find (get_accepted_text p) old_text) author
        (Some (case date of None \<Rightarrow> clock 0 | Some d \<Rightarrow> d)), True)"
  using assms
    delete_with_tracking_clock [of isoformat "clock 1" p _ _ author _ now1]
    insert_with_tracking_clock [of isoformat "clock 2" _ new_text _ author _ now2]
  by (simp add: replace_with_tracking_def Let_def)

lemma accepted_delete_range:
  assumes "0 \<le> pos"
  shows "get_accepted_text (delete_with_tracking isoformat now p pos (pos + int n) author date) =
         take (nat pos) (get_accepted_text p) @ drop (nat pos + n) (get_accepted_text p)"
proof (cases "n = 0")
  case True
  then show ?thesis by (simp add: delete_with_tracking_def)
next
  case False
  then have se: "pos < pos + int n" by simp
  have "nat (pos + int n) = nat pos + n" using assms by simp
  then show ?thesis
    using se accepted_mark_loop [OF se, of isoformat p author _ 0]
    by (simp add: delete_with_tracking_def mark_range_as_deleted_def Let_def)
qed

lemma accepted_insert_at:
  assumes "0 \<le> pos"
  shows "get_accepted_text (insert_with_tracking isoformat now p t pos author date) =
         take (nat pos) (get_accepted_text p) @ t @ drop (nat pos) (get_accepted_text p)"
proof -
  have "pos \<noteq> - 1" using assms by simp
  then show ?thesis
    using insert_loop_accepted [of 0 pos p] assms by (simp add: insert_with_tracking_eq)
qed

text \<open>
  Claim C7. When \<open>old_text\<close> is not a substring of the accepted text, \<open>replace_with_tracking\<close>
  returns \<^verbatim>\<open>False\<close> and leaves the paragraph as it is. When it is one, \<open>pos\<close> is the start
  of its first occurrence, the function returns \<^verbatim>\<open>True\<close>, and the paragraph is the one
  that \<open>delete_with_tracking\<close> on the range of that occurrence followed by
  \<open>insert_with_tracking\<close> of \<open>new_text\<close> at \<open>pos\<close> gives, both called with the author of the
  call and with the one date \<open>d\<close> (the date given, or the clock read once by
  \<open>replace_with_tracking\<close>), whatever the clock says during the two calls. The accepted text
  afterwards is the old one with the first occurrence replaced by \<open>new_text\<close>; the paragraph holds
  the \<^verbatim>\<open>ins\<close> element of \<open>new_text\<close> with that author and date; every
  \<^verbatim>\<open>del\<close> element that was not there before carries that author and date; and there is
  such an element when \<open>old_text\<close> is not empty.
\<close>

theorem replace_with_tracking_spec:
  fixes isoformat :: "'dt \<Rightarrow> string" and clock :: "nat \<Rightarrow> 'dt" and now1 now2 :: 'dt
    and p :: Paragraph and old_text new_text author :: string and date :: "'dt option"
  defines "A \<equiv> get_accepted_text p"
    and "pos \<equiv> str_find (get_accepted_text p) old_text"
    and "d \<equiv> (case date of None \<Rightarrow> clock 0 | Some d \<Rightarrow> d)"
    and "q \<equiv> fst (replace_with_tracking isoformat clock p old_text new_text author date)"
  shows
  "(\<not> sublist old_text A \<longrightarrow>
      replace_with_tracking isoformat clock p old_text new_text author date = (p, False)) \<and>
   (sublist old_text A \<longrightarrow>
      0 \<le> pos \<and> prefix old_text (drop (nat pos) A) \<and>
      (\<forall>k < nat pos. \<not> prefix old_text (drop k A)) \<and>
      replace_with_tracking isoformat clock p old_text new_text author date =
        (insert_with_tracking isoformat now2
           (delete_with_tracking isoformat now1 p pos (pos + int (length old_text)) author (Some d))
           new_text pos author (Some d), True) \<and>
      get_accepted_text q = take (nat pos) A @ new_text @ drop (nat pos + length old_text) A \<and>
      Element (qn_w ''ins'')
        [(qn_w ''author'', author), (qn_w ''date'', isoformat d), (qn_w ''id'', ''0'')] None
        [create_run_with_text new_text] \<in> set q \<and>
      (\<forall>x \<in> set q. localname x = ''del'' \<longrightarrow>
         x \<in> set p \<or> (\<exists>t. x = create_deletion_element isoformat t author d)) \<and>
      (old_text \<noteq> [] \<longrightarrow>
         (\<exists>t. t \<noteq> [] \<and> create_deletion_element isoformat t author d \<in> set q)))"
proof (intro conjI impI)
  assume "\<not> sublist old_text A"
  then have "str_find (get_accepted_text p) old_text = - 1"
    by (simp add: str_find_none A_def)
  then show "replace_with_tracking isoformat clock p old_text new_text author date = (p, False)"
    by (simp add: replace_with_tracking_def Let_def)
next
  assume found: "sublist old_text A"
  then have ne: "str_find (get_accepted_text p) old_text \<noteq> - 1"
    by (simp add: str_find_none A_def)
  note first = str_find_first [OF ne, folded pos_def A_def]
  show p0: "0 \<le> pos" using first by simp
  show pre: "prefix old_text (drop (nat pos) A)" using first by simp
  show "\<forall>k < nat pos. \<not> prefix old_text (drop k A)" using first by simp
  let ?del = "delete_with_tracking isoformat now1 p pos (pos + int (length old_text)) author
                (Some d)"
  let ?ins = "Element (qn_w ''ins'')
        [(qn_w ''author'', author), (qn_w ''date'', isoformat d), (qn_w ''id'', ''0'')] None
        [create_run_with_text new_text]"
  show eq: "replace_with_tracking isoformat clock p old_text new_text author date =
        (insert_with_tracking isoformat now2 ?del new_text pos author (Some d), True)"
    unfolding pos_def d_def by (rule replace_found [OF ne])
  have q: "q = insert_with_tracking isoformat now2 ?del new_text pos author (Some d)"
    unfolding q_def eq by simp
  have "pos \<noteq> - 1" using p0 by simp
  then have ql: "q = insert_at_position_loop ?del ?del 0 ?ins pos 0"
    unfolding q by (simp add: insert_with_tracking_eq)
  have B: "get_accepted_text ?del = take (nat pos) A @ drop (nat pos + length old_text) A"
    unfolding A_def by (rule accepted_delete_range [OF p0])
  have "pos \<le> int (length A)"
    unfolding pos_def A_def by (rule str_find_upper)
  then have len: "length (take (nat pos) A) = nat pos"
    using p0 by simp
  show "get_accepted_text q = take (nat pos) A @ new_text @ drop (nat pos + length old_text) A"
    unfolding q accepted_insert_at [OF p0] B using len by simp
  show "?ins \<in> set q"
    unfolding ql by (rule insert_loop_member)
  show "\<forall>x \<in> set q. localname x = ''del'' \<longrightarrow>
         x \<in> set p \<or> (\<exists>t. x = create_deletion_element isoformat t author d)"
  proof (intro ballI impI)
    fix x assume x: "x \<in> set q" "localname x = ''del''"
    from insert_loop_del_elems [OF x(1) [unfolded ql] x(2)] x(2)
    have xd: "x \<in> set ?del" by auto
    show "x \<in> set p \<or> (\<exists>t. x = create_deletion_element isoformat t author d)"
    proof (cases "old_text = []")
      case True
      with xd show ?thesis by (simp add: delete_with_tracking_def)
    next
      case False
      then have "?del = mark_range_loop isoformat p pos (pos + int (length old_text)) author d 0 []"
        by (simp add: delete_with_tracking_def mark_range_as_deleted_def)
      with xd mark_loop_del_elems [OF _ x(2)] show ?thesis by metis
    qed
  qed
  show "\<exists>t. t \<noteq> [] \<and> create_deletion_element isoformat t author d \<in> set q"
    if old: "old_text \<noteq> []"
  proof -
    have se: "pos < pos + int (length old_text)" using old by simp
    from prefix_drop_length [OF pre] old
    have "nat pos + length old_text \<le> length A" by simp
    then have "max pos 0 < min (pos + int (length old_text)) (0 + int (length (get_accepted_text p)))"
      using p0 old unfolding A_def by auto
    from mark_loop_creates_del [OF se this, of isoformat author d]
    obtain t where t: "t \<noteq> []"
      "create_deletion_element isoformat t author d \<in>
         set (mark_range_loop isoformat p pos (pos + int (length old_text)) author d 0 [])"
      by blast
    have "?del = mark_range_loop isoformat p pos (pos + int (length old_text)) author d 0 []"
      using old by (simp add: delete_with_tracking_def mark_range_as_deleted_def)
    with t(2) have "create_deletion_element isoformat t author d \<in> set ?del" by simp
    then have "create_deletion_element isoformat t author d \<in> set q"
      unfolding ql by (intro insert_loop_keeps_del) simp_all
    with t(1) show ?thesis by blast
  qed
qed

theorem replace_with_tracking_spec_witness:
  "\<not> sublist ''xyz'' (get_accepted_text [create_run_with_text ''Hello world'']) \<and>
   replace_with_tracking (\<lambda>d::string. d) (\<lambda>k. if k = 0 then ''t0'' else if k = 1 then ''t1'' else ''t2'')
     [create_run_with_text ''Hello world''] ''xyz'' ''abc'' ''Cid'' None =
     ([create_run_with_text ''Hello world''], False) \<and>
   sublist ''world'' (get_accepted_text [create_run_with_text ''Hello world'']) \<and>
   get_accepted_text (fst (replace_with_tracking (\<lambda>d::string. d)
       (\<lambda>k. if k = 0 then ''t0'' else if k = 1 then ''t1'' else ''t2'')
       [create_run_with_text ''Hello world''] ''world'' ''universe'' ''Cid'' None)) =
     ''Hello universe'' \<and>
   replace_with_tracking (\<lambda>d::string. d)
       (\<lambda>k. if k = 0 then ''t0'' else if k = 1 then ''t1'' else ''t2'')
       [create_run_with_text ''Hello world''] ''world'' ''universe'' ''Cid'' None =
     ([create_run_with_text ''Hello '',
       Element (qn_w ''del'')
         [(qn_w ''author'', ''Cid''), (qn_w ''date'', ''t0''), (qn_w ''id'', ''0'')] None
         [create_del_run_with_text ''world''],
       Element (qn_w ''ins'')
         [(qn_w ''author'', ''Cid''), (qn_w ''date'', ''t0''), (qn_w ''id'', ''0'')] None
         [create_run_with_text ''universe'']], True)"
proof -
  let ?P = "[create_run_with_text ''Hello world'']"
  let ?clock = "\<lambda>k::nat. if k = 0 then ''t0'' else if k = 1 then ''t1'' else ''t2''"
  have a: "get_accepted_text ?P = ''Hello world''"
    by (simp add: accepted_singleton)
  have n: "\<not> sublist ''xyz'' (get_accepted_text ?P)"
    unfolding a by code_simp
  have y: "sublist ''world'' (get_accepted_text ?P)"
    unfolding a by code_simp
  have pos: "str_find ''Hello world'' ''world'' = 6"
    by code_simp
  note t1 = replace_with_tracking_spec [where p = ?P and old_text = "''xyz''"
      and isoformat = "\<lambda>d::string. d" and clock = ?clock and new_text = "''abc''"
      and author = "''Cid''" and date = None, THEN conjunct1, rule_format, OF n]
  note t2 = replace_with_tracking_spec [where p = ?P and old_text = "''world''"
      and isoformat = "\<lambda>d::string. d" and clock = ?clock and new_text = "''universe''"
      and author = "''Cid''" and date = None and ?now1.0 = "''t1''" and ?now2.0 = "''t2''",
      THEN conjunct2, rule_format, OF y]
  from t2 [THEN conjunct2, THEN conjunct2, THEN conjunct2, THEN conjunct2, THEN conjunct1]
  have acc: "get_accepted_text (fst (replace_with_tracking (\<lambda>d::string. d) ?clock ?P
       ''world'' ''universe'' ''Cid'' None)) = ''Hello universe''"
    unfolding a pos by simp
  have ev: "replace_with_tracking (\<lambda>d::string. d) ?clock ?P ''world'' ''universe'' ''Cid'' None =
     ([create_run_with_text ''Hello '',
       Element (qn_w ''del'')
         [(qn_w ''author'', ''Cid''), (qn_w ''date'', ''t0''), (qn_w ''id'', ''0'')] None
         [create_del_run_with_text ''world''],
       Element (qn_w ''ins'')
         [(qn_w ''author'', ''Cid''), (qn_w ''date'', ''t0''), (qn_w ''id'', ''0'')] None
         [create_run_with_text ''universe'']], True)"
    by code_simp
  from n t1 y acc ev show ?thesis by (intro conjI)
qed

section \<open>The list of revisions\<close>

lemma get_revisions_loop_eq:
  assumes "\<And>s. fromisoformat s \<noteq> Inl OtherError"
  shows "get_revisions_loop fromisoformat (iter_paragraph_content p) acc =
     Inr (acc @
       map (\<lambda>e. \<lparr>rev_type = localname e,
                  rev_text = extract_text_from_element e,
                  rev_author = (case get_attr e (qn_w ''author'') of
                                  None \<Rightarrow> ''Unknown'' | Some a \<Rightarrow> a),
                  rev_date = (case get_attr e (qn_w ''date'') of
                                None \<Rightarrow> None
                              | Some ds \<Rightarrow>
                                  if ds = [] then None
                                  else (case fromisoformat (replace_Z ds) of
                                          Inr d \<Rightarrow> Some d | Inl ex \<Rightarrow> None))\<rparr>)
         (filter (\<lambda>e. localname e \<in> {''ins'', ''del''} \<and> extract_text_from_element e \<noteq> []) p))"
proof (induction p arbitrary: acc)
  case Nil
  show ?case by simp
next
  case (Cons c rest)
  have other: "fromisoformat s = Inl ex \<Longrightarrow> ex = ValueError \<or> ex = AttributeError" for s ex
    using assms [of s] by (cases ex) auto
  consider (run) "localname c = ''r''" | (ins) "localname c = ''ins''" | (del) "localname c = ''del''"
    | (none) "localname c \<notin> {''r'', ''ins'', ''del''}"
    by auto
  then show ?case
  proof cases
    case run
    then show ?thesis by (simp add: Cons.IH)
  next
    case none
    then show ?thesis by (simp add: Cons.IH)
  next
    case ins
    then show ?thesis
      by (auto simp add: Cons.IH Let_def split: option.splits sum.splits py_exception.splits
          dest: other)
  next
    case del
    then show ?thesis
      by (auto simp add: Cons.IH Let_def split: option.splits sum.splits py_exception.splits
          dest: other)
  qed
qed

text \<open>
  Claim C9. \<open>get_revisions\<close> returns one revision for each \<^verbatim>\<open>ins\<close> or \<^verbatim>\<open>del\<close>
  child whose text is not empty, in the order of the children. The author is
  \<^verbatim>\<open>"Unknown"\<close> when the child has no author attribute, and the date is \<^verbatim>\<open>None\<close>
  when the date attribute is missing, empty or rejected by the parser; the function does not
  raise. The parser raises \<^verbatim>\<open>ValueError\<close> on a string it rejects, which is the
  hypothesis on \<open>fromisoformat\<close>.
\<close>

theorem get_revisions_spec:
  assumes "\<And>s. fromisoformat s \<noteq> Inl OtherError"
  shows "get_revisions fromisoformat p =
     Inr (map (\<lambda>e. \<lparr>rev_type = localname e,
                  rev_text = extract_text_from_element e,
                  rev_author = (case get_attr e (qn_w ''author'') of
                                  None \<Rightarrow> ''Unknown'' | Some a \<Rightarrow> a),
                  rev_date = (case get_attr e (qn_w ''date'') of
                                None \<Rightarrow> None
                              | Some ds \<Rightarrow>
                                  if ds = [] then None
                                  else (case fromisoformat (replace_Z ds) of
                                          Inr d \<Rightarrow> Some d | Inl ex \<Rightarrow> None))\<rparr>)
         (filter (\<lambda>e. localname e \<in> {''ins'', ''del''} \<and> extract_text_from_element e \<noteq> []) p))"
  using get_revisions_loop_eq [OF assms, where p = p and acc = "[]"] by (simp add: get_revisions_def)

theorem get_revisions_spec_witness:
  "(\<forall>s. (if s = ''2024-01-01T00:00:00+00:00'' then Inr ''D1'' else Inl ValueError)
         \<noteq> Inl OtherError) \<and>
   get_revisions
     (\<lambda>s. if s = ''2024-01-01T00:00:00+00:00'' then Inr ''D1'' else Inl ValueError)
     [Element (qn_w ''ins'') [(qn_w ''author'', ''Ann''), (qn_w ''date'', ''yesterday'')] None
        [create_run_with_text ''x''],
      Element (qn_w ''del'') [(qn_w ''date'', ''2024-01-01T00:00:00Z'')] None
        [create_del_run_with_text ''y''],
      create_run_with_text ''r'',
      Element (qn_w ''ins'') [(qn_w ''author'', ''Bob'')] None []] =
   Inr [\<lparr>rev_type = ''ins'', rev_text = ''x'', rev_author = ''Ann'', rev_date = None\<rparr>,
        \<lparr>rev_type = ''del'', rev_text = ''y'', rev_author = ''Unknown'',
           rev_date = Some ''D1''\<rparr>]"
proof -
  let ?f = "\<lambda>s. if s = ''2024-01-01T00:00:00+00:00'' then Inr ''D1'' else Inl ValueError"
  let ?P = "[Element (qn_w ''ins'') [(qn_w ''author'', ''Ann''), (qn_w ''date'', ''yesterday'')] None
        [create_run_with_text ''x''],
      Element (qn_w ''del'') [(qn_w ''date'', ''2024-01-01T00:00:00Z'')] None
        [create_del_run_with_text ''y''],
      create_run_with_text ''r'',
      Element (qn_w ''ins'') [(qn_w ''author'', ''Bob'')] None []]"
  have h: "?f s \<noteq> Inl OtherError" for s by simp
  have ev: "map (\<lambda>e. \<lparr>rev_type = localname e,
                  rev_text = extract_text_from_element e,
                  rev_author = (case get_attr e (qn_w ''author'') of
                                  None \<Rightarrow> ''Unknown'' | Some a \<Rightarrow> a),
                  rev_date = (case get_attr e (qn_w ''date'') of
                                None \<Rightarrow> None
                              | Some ds \<Rightarrow>
                                  if ds = [] then None
                                  else (case ?f (replace_Z ds) of
                                          Inr d \<Rightarrow> Some d | Inl ex \<Rightarrow> None))\<rparr>)
         (filter (\<lambda>e. localname e \<in> {''ins'', ''del''} \<and> extract_text_from_element e \<noteq> []) ?P) =
       [\<lparr>rev_type = ''ins'', rev_text = ''x'', rev_author = ''Ann'', rev_date = None\<rparr>,
        \<lparr>rev_type = ''del'', rev_text = ''y'', rev_author = ''Unknown'',
           rev_date = Some ''D1''\<rparr>]"
    by code_simp
  have "get_revisions ?f ?P =
     Inr [\<lparr>rev_type = ''ins'', rev_text = ''x'', rev_author = ''Ann'', rev_date = None\<rparr>,
        \<lparr>rev_type = ''del'', rev_text = ''y'', rev_author = ''Unknown'',
           rev_date = Some ''D1''\<rparr>]"
    using get_revisions_spec [of ?f ?P, OF h] unfolding ev .
  with h show ?thesis by (intro conjI allI)
qed

section \<open>The accepted text of every reachable paragraph\<close>

lemma iter_elems_append_child:
  "children e = [] \<Longrightarrow> iter_elems (append_child e c) = append_child e c # iter_elems c"
  by (cases e) (simp add: append_child_def)

lemma no_deletion_create_run [simp]: "no_deletion_inside (create_run_with_text t)"
  by (simp add: no_deletion_inside_def create_run_with_text_def OxmlElement_def set_text_def
      set_attr_def append_child_def localname_def)

lemma no_deletion_wrap:
  assumes "children e = []" "tag e = qn_w ''ins''" "no_deletion_inside c"
  shows "no_deletion_inside (append_child e c)"
  using assms
  by (simp add: no_deletion_inside_def iter_elems_append_child localname_def)

lemma no_deletion_rebuild_piece [simp]: "no_deletion_inside (rebuild_piece tg c t)"
  by (simp add: rebuild_piece_def no_deletion_wrap)

lemma no_deletion_ins_elem [simp]:
  "no_deletion_inside (Element (qn_w ''ins'') as None [create_run_with_text t])"
  using no_deletion_wrap [of "Element (qn_w ''ins'') as None []" "create_run_with_text t"]
  by (simp add: append_child_def)

lemma nnd_Nil [simp]: "no_nested_deletion []"
  by (simp add: no_nested_deletion_def)

lemma nnd_append [simp]:
  "no_nested_deletion (xs @ ys) \<longleftrightarrow> no_nested_deletion xs \<and> no_nested_deletion ys"
  by (auto simp: no_nested_deletion_def)

lemma nnd_single:
  "no_nested_deletion [c] \<longleftrightarrow> (localname c \<in> {''r'', ''ins''} \<longrightarrow> no_deletion_inside c)"
  by (simp add: no_nested_deletion_def)


lemma nnd_pieces [simp]:
  "no_nested_deletion (if u \<noteq> [] then [rebuild_piece tg c u] else [])"
  "no_nested_deletion [create_deletion_element isoformat u a d]"
  "no_nested_deletion (if u \<noteq> [] then [create_deletion_element isoformat u a d] else [])"
  by (simp_all add: nnd_single)

lemma nnd_split_for_deletion [simp]:
  "no_nested_deletion (split_for_deletion isoformat t cur s e a d tg c)"
  unfolding split_for_deletion_eq by (simp only: nnd_append nnd_pieces simp_thms)














end
